theory Spec2Isabelle
  imports Complex_Main "HOL-Library.Finite_Map"
begin

section \<open>Points and keys (helpers.ts)\<close>

text \<open>
  A \<open>Point\<close> carries two numbers. Every point the program builds has integer coordinates
  (loop counters, floors, and offsets of plus or minus one), so a point is a pair of
  integers. \<open>key()\<close> renders the pair as the string \<open>x,y\<close>, which is one-to-one on
  integer pairs; the key is modelled as the pair itself. \<open>equals\<close> compares coordinates.
\<close>

type_synonym Point = "int \<times> int"
type_synonym key = "int \<times> int"

definition key :: "Point \<Rightarrow> key" where
  "key p = (fst p, snd p)"

definition equals :: "Point \<Rightarrow> Point \<Rightarrow> bool" where
  "equals p q \<longleftrightarrow> fst p = fst q \<and> snd p = snd q"

text \<open>\<open>unique\<close>: keep the first occurrence of every value, in order.\<close>

fun unique_loop :: "'a list \<Rightarrow> 'a list \<Rightarrow> 'a list" where
  "unique_loop uniqAry [] = uniqAry"
| "unique_loop uniqAry (el # ary) =
     (if el \<in> set uniqAry then unique_loop uniqAry ary else unique_loop (uniqAry @ [el]) ary)"

definition unique :: "'a list \<Rightarrow> 'a list" where
  "unique ary = unique_loop [] ary"

section \<open>PriorityQueue\<close>

record 'a PQueueEntry =
  data :: 'a
  priority :: real

text \<open>
  The queue is the array of entries; the public \<open>length\<close> field is reassigned to the
  array's length at the end of every operation, so it is read off the list.

  \<open>insert\<close> scans for the first entry whose priority is greater than the new one and
  remembers its index; \<open>insertIdx\<close> starts at 0 and is left at 0 when the scan finds no
  such entry. The new entry is then spliced in at that index.
\<close>

fun insertIdx_loop :: "'a PQueueEntry list \<Rightarrow> real \<Rightarrow> nat \<Rightarrow> nat" where
  "insertIdx_loop [] prio i = 0"
| "insertIdx_loop (obj # rest) prio i =
     (if priority obj > prio then i else insertIdx_loop rest prio (Suc i))"

definition splice_at :: "'a list \<Rightarrow> nat \<Rightarrow> 'a \<Rightarrow> 'a list" where
  "splice_at xs idx v = take idx xs @ v # drop idx xs"

definition pq_insert :: "'a PQueueEntry list \<Rightarrow> 'a \<Rightarrow> real \<Rightarrow> 'a PQueueEntry list" where
  "pq_insert queue d prio =
     splice_at queue (insertIdx_loop queue prio 0) \<lparr>data = d, priority = prio\<rparr>"

text \<open>\<open>dequeue\<close> shifts the first entry off; on the empty queue it returns undefined.\<close>

definition dequeue :: "'a PQueueEntry list \<Rightarrow> 'a option \<times> 'a PQueueEntry list" where
  "dequeue queue = (case queue of [] \<Rightarrow> (None, []) | e # rest \<Rightarrow> (Some (data e), rest))"

definition peek :: "'a PQueueEntry list \<Rightarrow> 'a option" where
  "peek queue = (case queue of [] \<Rightarrow> None | e # rest \<Rightarrow> Some (data e))"

text \<open>Repeated \<open>dequeue\<close> until the queue is empty.\<close>

fun dequeue_all :: "'a PQueueEntry list \<Rightarrow> 'a list" where
  "dequeue_all [] = []"
| "dequeue_all (e # rest) = data e # dequeue_all rest"

section \<open>Errors\<close>

text \<open>
  \<open>TypeError\<close>: a property is read from, or an iteration is started on, \<open>undefined\<close>.
  \<open>RangeError\<close>: a recursion that never returns exhausts the call stack.
\<close>

datatype error = TypeError | RangeError

text \<open>A \<open>for ... of\<close> loop whose body may throw: the first error ends the loop.\<close>

fun for_each :: "('a \<Rightarrow> 's \<Rightarrow> error + 's) \<Rightarrow> 'a list \<Rightarrow> 's \<Rightarrow> error + 's" where
  "for_each body [] s = Inr s"
| "for_each body (a # as) s = (case body a s of Inl e \<Rightarrow> Inl e | Inr s' \<Rightarrow> for_each body as s')"

section \<open>AStar (AStar.ts)\<close>

text \<open>
  A vertex is a point with a cost. The constructor fills the grid column by column, one
  \<open>Math.random()\<close> call per vertex, and records the diagonal neighbours of every vertex
  whose coordinates are both even or both odd. Vertices are compared by reference; the
  grid holds one vertex per coordinate, so two grid vertices are the same object exactly
  when they are equal.
\<close>

record Vertex =
  vpos :: Point
  cost :: real

record AStar =
  adjacencies :: "(key, Vertex list) fmap"
  grid :: "Vertex list list"

function range_by2 :: "int \<Rightarrow> int \<Rightarrow> int list" where
  "range_by2 i bound = (if i < bound then i # range_by2 (i + 2) bound else [])"
  by pat_completeness auto
termination
  by (relation "measure (\<lambda>(i, bound). nat (bound - i))") auto

definition generateAdjacencies :: "Vertex list list \<Rightarrow> Vertex \<Rightarrow> int \<Rightarrow> int \<Rightarrow> Vertex list" where
  "generateAdjacencies g n width height =
     concat (map (\<lambda>offsets.
         let newX = fst (vpos n) + fst offsets; newY = snd (vpos n) + snd offsets
         in if newX \<ge> 0 \<and> newX < width \<and> newY \<ge> 0 \<and> newY < height
            then [g ! nat newX ! nat newY] else [])
       [(1, 1), (- 1, 1), (- 1, - 1), (1, - 1)])"

definition new_AStar :: "(nat \<Rightarrow> real) \<Rightarrow> int \<Rightarrow> int \<Rightarrow> AStar" where
  "new_AStar rnd width height =
     (let g = map (\<lambda>x. map (\<lambda>y. \<lparr>vpos = (x, y),
                      cost = rnd (nat (x * height + y)) * real_of_int (width + height) / 10\<rparr>)
                    [0 .. height - 1]) [0 .. width - 1];
          cells = concat (map (\<lambda>x. map (\<lambda>y. (x, y)) (range_by2 0 height)) (range_by2 0 width))
                @ concat (map (\<lambda>x. map (\<lambda>y. (x, y)) (range_by2 1 height)) (range_by2 1 width))
      in \<lparr>adjacencies =
            fold (\<lambda>c adj. let n = g ! nat (fst c) ! nat (snd c)
                           in fmupd (key (vpos n)) (generateAdjacencies g n width height) adj)
              cells fmempty,
          grid = g\<rparr>)"

text \<open>
  \<open>getVertex\<close> reads \<open>grid[x][y]\<close>: outside the columns the read of \<open>[y]\<close> throws, outside
  a column it gives \<open>undefined\<close>.
\<close>

definition getVertex :: "AStar \<Rightarrow> int \<Rightarrow> int \<Rightarrow> error + Vertex option" where
  "getVertex a x y =
     (if 0 \<le> x \<and> x < int (length (grid a)) then
        (if 0 \<le> y \<and> y < int (length (grid a ! nat x)) then Inr (Some (grid a ! nat x ! nat y))
         else Inr None)
      else Inl TypeError)"

definition manhattanDistance :: "Vertex \<Rightarrow> Vertex \<Rightarrow> real" where
  "manhattanDistance a b =
     real_of_int (\<bar>fst (vpos a) - fst (vpos b)\<bar> + \<bar>snd (vpos a) - snd (vpos b)\<bar>)"

text \<open>
  The state of the search. \<open>origin\<close> maps a key to a vertex or to \<open>null\<close>; a key that is
  not there reads as \<open>undefined\<close>.
\<close>

record Search =
  frontier :: "Vertex PQueueEntry list"
  costs :: "(key, real) fmap"
  origin :: "(key, Vertex option) fmap"

text \<open>
  \<open>relax\<close> is the body of the loop over the neighbours of the current vertex. The cost
  of the current vertex is always on record (a vertex enters the frontier together with
  its cost), so the first branch is never taken. The heuristic reads the coordinates of
  the end vertex, which throws when the end vertex is \<open>undefined\<close>.
\<close>

definition relax :: "Vertex option \<Rightarrow> Vertex \<Rightarrow> Vertex \<Rightarrow> Search \<Rightarrow> error + Search" where
  "relax endV current v s =
     (case fmlookup (costs s) (key (vpos current)) of
        None \<Rightarrow> Inl TypeError
      | Some c \<Rightarrow>
         (let newCost = c + cost v
          in if (case fmlookup (costs s) (key (vpos v)) of
                   None \<Rightarrow> True | Some old \<Rightarrow> newCost < old)
             then (case endV of
                     None \<Rightarrow> Inl TypeError
                   | Some e \<Rightarrow>
                       Inr \<lparr>frontier = pq_insert (frontier s) v
                                          (newCost + manhattanDistance v e / sqrt 2),
                            costs = fmupd (key (vpos v)) newCost (costs s),
                            origin = fmupd (key (vpos v)) (Some current) (origin s)\<rparr>)
             else Inr s))"

text \<open>The loop ends either through its \<open>break\<close> or because the frontier is empty.\<close>

datatype exit = Break | Exhausted

partial_function (option) find_loop ::
  "AStar \<Rightarrow> Vertex option \<Rightarrow> Search \<Rightarrow> (error + exit \<times> Search) option" where
  "find_loop a endV s =
     (if length (frontier s) > 0 then
        (let current = fst (dequeue (frontier s));
             s1 = s\<lparr>frontier := snd (dequeue (frontier s))\<rparr>
         in if current = endV \<or> current = None then Some (Inr (Break, s1))
            else (case current of
                    None \<Rightarrow> Some (Inr (Break, s1))
                  | Some cur \<Rightarrow>
                     (case fmlookup (adjacencies a) (key (vpos cur)) of
                        None \<Rightarrow> Some (Inl TypeError)
                      | Some vs \<Rightarrow>
                         (case for_each (relax endV cur) vs s1 of
                            Inl e \<Rightarrow> Some (Inl e)
                          | Inr s' \<Rightarrow> find_loop a endV s'))))
      else Some (Inr (Exhausted, s)))"

text \<open>The walk back along \<open>origin\<close>, which stops at \<open>null\<close> and at \<open>undefined\<close>.\<close>

partial_function (option) backtrace ::
  "(key, Vertex option) fmap \<Rightarrow> Vertex option \<Rightarrow> Vertex list \<Rightarrow> Vertex list option" where
  "backtrace org current path =
     (case current of
        None \<Rightarrow> Some path
      | Some c \<Rightarrow>
          backtrace org
            (case fmlookup org (key (vpos c)) of None \<Rightarrow> None | Some v \<Rightarrow> v)
            (path @ [c]))"

definition find_search :: "AStar \<Rightarrow> Point \<Rightarrow> Point \<Rightarrow> (error + exit \<times> Search) option" where
  "find_search a start endp =
     (case getVertex a (fst start) (snd start) of
        Inl e \<Rightarrow> Some (Inl e)
      | Inr startV \<Rightarrow>
         (case getVertex a (fst endp) (snd endp) of
            Inl e \<Rightarrow> Some (Inl e)
          | Inr endV \<Rightarrow>
             (case startV of
                None \<Rightarrow> Some (Inl TypeError)
              | Some sv \<Rightarrow>
                  find_loop a endV
                    \<lparr>frontier = pq_insert [] sv 0,
                     costs = fmupd (key (vpos sv)) 0 fmempty,
                     origin = fmupd (key (vpos sv)) None fmempty\<rparr>)))"

definition AStar_find :: "AStar \<Rightarrow> Point \<Rightarrow> Point \<Rightarrow> (error + Point list) option" where
  "AStar_find a start endp =
     (case find_search a start endp of
        None \<Rightarrow> None
      | Some (Inl e) \<Rightarrow> Some (Inl e)
      | Some (Inr r) \<Rightarrow>
         (case getVertex a (fst endp) (snd endp) of
            Inl e \<Rightarrow> Some (Inl e)
          | Inr endV \<Rightarrow>
             (case backtrace (origin (snd r)) endV [] of
                None \<Rightarrow> None
              | Some path \<Rightarrow> Some (Inr (map vpos (rev path))))))"

section \<open>Transition tables (index.ts)\<close>

text \<open>
  \<open>Transitions\<close> is a record from point keys to arrays of neighbour points: a finite map.
  \<open>populateTransitions\<close> walks a path by index and appends the previous and the next
  point to the entry of each point, unless an equal point is already there.
\<close>

type_synonym Transitions = "(key, Point list) fmap"

definition populateTransitions :: "Point list \<Rightarrow> Transitions \<Rightarrow> Transitions" where
  "populateTransitions pathNodes transitions =
     fold (\<lambda>i tr.
        let k = key (pathNodes ! i);
            transAry = (case fmlookup tr k of None \<Rightarrow> [] | Some ary \<Rightarrow> ary);
            transAry1 = (if 1 \<le> i \<and> \<not> (\<exists>p \<in> set transAry. equals p (pathNodes ! (i - 1)))
                         then transAry @ [pathNodes ! (i - 1)] else transAry);
            transAry2 = (if i + 1 < length pathNodes
                            \<and> \<not> (\<exists>p \<in> set transAry1. equals p (pathNodes ! (i + 1)))
                         then transAry1 @ [pathNodes ! (i + 1)] else transAry1)
        in fmupd k transAry2 tr)
      [0 ..< length pathNodes] transitions"

subsection \<open>canReachEnd\<close>

text \<open>
  The history array is shared by all recursive calls, so it is passed in and returned.
  A call pushes its start key, tries every neighbour that is not in the history, and pops
  the key again before it returns false; a call that returns true leaves the history as
  it is at that moment. Reading the entry of a key that the table does not hold gives
  \<open>undefined\<close>, and iterating it throws.
\<close>

function canReachEnd :: "key \<Rightarrow> key \<Rightarrow> Transitions \<Rightarrow> key list \<Rightarrow> error + (bool \<times> key list)"
  and canReachEnd_loop :: "Point list \<Rightarrow> key \<Rightarrow> Transitions \<Rightarrow> key list \<Rightarrow> error + (bool \<times> key list)"
where
  "canReachEnd startKey endKey transitions history =
     (if startKey = endKey then Inr (True, history)
      else case fmlookup transitions startKey of
             None \<Rightarrow> Inl TypeError
           | Some ps \<Rightarrow> canReachEnd_loop ps endKey transitions (history @ [startKey]))"
| "canReachEnd_loop [] endKey transitions history = Inr (False, butlast history)"
| "canReachEnd_loop (p # ps) endKey transitions history =
     (if key p \<notin> set history then
        (case canReachEnd (key p) endKey transitions history of
           Inl e \<Rightarrow> Inl e
         | Inr (True, h') \<Rightarrow> Inr (True, h')
         | Inr (False, h') \<Rightarrow> canReachEnd_loop ps endKey transitions h')
      else canReachEnd_loop ps endKey transitions history)"
  by pat_completeness auto


lemma canReachEnd_restores_partial:
  "canReachEnd_canReachEnd_loop_dom (Inl (s, e, tr, h)) \<Longrightarrow>
     canReachEnd s e tr h = Inr (False, h') \<Longrightarrow> h' = h"
  "canReachEnd_canReachEnd_loop_dom (Inr (ps, e, tr, h)) \<Longrightarrow>
     canReachEnd_loop ps e tr h = Inr (False, h') \<Longrightarrow> h' = butlast h"
proof (induction s e tr h and ps e tr h arbitrary: h' and h'
       rule: canReachEnd_canReachEnd_loop.pinduct)
  case (1 startKey endKey transitions history)
  then show ?case
    by (auto simp: canReachEnd.psimps split: if_splits option.splits)
next
  case (2 endKey transitions history)
  then show ?case by (simp add: canReachEnd_loop.psimps)
next
  case (3 p ps endKey transitions history)
  show ?case
  proof (cases "key p \<in> set history")
    case True
    with 3 show ?thesis by (simp add: canReachEnd_loop.psimps)
  next
    case False
    with 3(1,5) obtain b y where r: "canReachEnd (key p) endKey transitions history = Inr (b, y)"
      by (auto simp: canReachEnd_loop.psimps split: sum.splits)
    show ?thesis
    proof (cases b)
      case True
      with 3(1,5) False r show ?thesis by (simp add: canReachEnd_loop.psimps)
    next
      case nb: False
      with 3(2)[OF False] r have "y = history" by simp
      moreover from 3(1,5) False r nb
      have "canReachEnd_loop ps endKey transitions y = Inr (False, h')"
        by (simp add: canReachEnd_loop.psimps)
      ultimately show ?thesis using 3(3)[OF False r refl] nb by simp
    qed
  qed
qed

definition canReachEnd_weight :: "(key \<times> key \<times> Transitions \<times> key list) + (Point list \<times> key \<times> Transitions \<times> key list) \<Rightarrow> nat \<times> nat" where
  "canReachEnd_weight a = (case a of
      Inl (s, e, tr, h) \<Rightarrow>
        (if s \<in> fmdom' tr then 2 * card (fmdom' tr - set h - {s}) + 1 else 0, 0)
    | Inr (ps, e, tr, h) \<Rightarrow> (2 * card (fmdom' tr - set h), length ps))"

termination canReachEnd
proof (relation "inv_image (less_than <*lex*> less_than) canReachEnd_weight", goal_cases)
  case 1
  show ?case by (intro wf_inv_image wf_lex_prod wf_less_than)
next
  case (2 startKey endKey transitions history x2)
  then have "startKey \<in> fmdom' transitions" by (simp add: fmdom'I)
  moreover have "fmdom' transitions - set (history @ [startKey])
        = fmdom' transitions - set history - {startKey}" by auto
  ultimately show ?case by (simp add: canReachEnd_weight_def)
next
  case (3 p ps endKey transitions history)
  show ?case
  proof (cases "key p \<in> fmdom' transitions")
    case True
    with 3 have "key p \<in> fmdom' transitions - set history" by simp
    then have "card (fmdom' transitions - set history - {key p}) < card (fmdom' transitions - set history)"
      by (meson card_Diff1_less finite_Diff finite_fmdom')
    with True show ?thesis by (simp add: canReachEnd_weight_def)
  next
    case False
    then show ?thesis by (auto simp: canReachEnd_weight_def card_gt_0_iff)
  qed
next
  case (4 p ps endKey transitions history b x y)
  then have "y = history" using canReachEnd_restores_partial(1) by metis
  then show ?case by (simp add: canReachEnd_weight_def)
next
  case (5 p ps endKey transitions history)
  then show ?case by (simp add: canReachEnd_weight_def)
qed



section \<open>MapNode (MapNode.ts)\<close>

text \<open>
  There is one \<open>MapNode\<close> object per coordinate, held in a record from keys to nodes; the
  parent and child arrays hold references to these objects and are modelled as lists of
  keys into that record. The portrait is the catalogue index that \<open>getPortrait\<close> drew for
  the node.

  \<open>hasAncestor\<close> and \<open>getAncestors\<close> recurse along the parent links. On a chain of parent
  links longer than the number of nodes some node repeats, and from there the source
  recursion never returns: the engine ends it with a \<open>RangeError\<close>. The model carries the
  remaining depth and starts with one more than the number of nodes.
\<close>

record MapNode =
  coord :: Point
  distSinceFight :: int
  isBoss :: bool
  portrait :: "nat option"
  parents :: "key list"
  children :: "key list"

definition new_MapNode :: "Point \<Rightarrow> MapNode" where
  "new_MapNode p = \<lparr>coord = p, distSinceFight = -1, isBoss = False, portrait = None,
                     parents = [], children = []\<rparr>"

type_synonym NodeRefs = "(key, MapNode) fmap"

fun hasAncestor_depth :: "nat \<Rightarrow> NodeRefs \<Rightarrow> key \<Rightarrow> key \<Rightarrow> error + bool"
  and hasAncestor_loop :: "nat \<Rightarrow> NodeRefs \<Rightarrow> key list \<Rightarrow> key \<Rightarrow> error + bool"
where
  "hasAncestor_depth 0 nodes self k = Inl RangeError"
| "hasAncestor_depth (Suc d) nodes self k =
     (case fmlookup nodes self of
        None \<Rightarrow> Inl TypeError
      | Some n \<Rightarrow> hasAncestor_loop d nodes (parents n) k)"
| "hasAncestor_loop d nodes [] k = Inr False"
| "hasAncestor_loop d nodes (p # ps) k =
     (if p = k then Inr True
      else case hasAncestor_depth d nodes p k of
             Inl e \<Rightarrow> Inl e
           | Inr True \<Rightarrow> Inr True
           | Inr False \<Rightarrow> hasAncestor_loop d nodes ps k)"

definition hasAncestor :: "NodeRefs \<Rightarrow> key \<Rightarrow> key \<Rightarrow> error + bool" where
  "hasAncestor nodes self k = hasAncestor_depth (Suc (fcard (fmdom nodes))) nodes self k"

fun getAncestors_depth :: "nat \<Rightarrow> NodeRefs \<Rightarrow> key \<Rightarrow> error + key list"
  and getAncestors_loop :: "nat \<Rightarrow> NodeRefs \<Rightarrow> key list \<Rightarrow> key list \<Rightarrow> error + key list"
where
  "getAncestors_depth 0 nodes self = Inl RangeError"
| "getAncestors_depth (Suc d) nodes self =
     (case fmlookup nodes self of
        None \<Rightarrow> Inl TypeError
      | Some n \<Rightarrow> getAncestors_loop d nodes (parents n) [])"
| "getAncestors_loop d nodes [] ancestorKeys = Inr ancestorKeys"
| "getAncestors_loop d nodes (p # ps) ancestorKeys =
     (case getAncestors_depth d nodes p of
        Inl e \<Rightarrow> Inl e
      | Inr ks \<Rightarrow> getAncestors_loop d nodes ps (ancestorKeys @ p # ks))"

definition getAncestors :: "NodeRefs \<Rightarrow> key \<Rightarrow> error + key list" where
  "getAncestors nodes self = getAncestors_depth (Suc (fcard (fmdom nodes))) nodes self"

text \<open>\<open>addParent\<close> and \<open>addChild\<close> push the node unless an equal one is already listed.\<close>

definition addParent :: "key \<Rightarrow> MapNode \<Rightarrow> MapNode" where
  "addParent parent n = (if parent \<in> set (parents n) then n else n\<lparr>parents := parents n @ [parent]\<rparr>)"

definition addChild :: "key \<Rightarrow> MapNode \<Rightarrow> MapNode" where
  "addChild child n = (if child \<in> set (children n) then n else n\<lparr>children := children n @ [child]\<rparr>)"

text \<open>An update of the object stored under a key.\<close>

definition modify :: "key \<Rightarrow> (MapNode \<Rightarrow> MapNode) \<Rightarrow> NodeRefs \<Rightarrow> NodeRefs" where
  "modify k f nodes = (case fmlookup nodes k of None \<Rightarrow> nodes | Some n \<Rightarrow> fmupd k (f n) nodes)"

section \<open>Graph building: nodesFromTransitions (index.ts)\<close>

text \<open>
  \<open>visitTransition\<close> is the body of the loop over the transition points of the current
  node: it creates the node of the test point when there is none, and links the two nodes
  when the test point is no ancestor of the current node and can reach the end around the
  current node and its ancestors. A linked test point other than the end is queued.

  The outer loop shifts points off \<open>currPoints\<close> until it is empty. A point without a
  node reference logs an error and leaves the loop; a node without a table entry makes
  the iteration over its transition points throw.
\<close>

definition visitTransition ::
  "Point \<Rightarrow> Transitions \<Rightarrow> key \<Rightarrow> Point \<Rightarrow> NodeRefs \<times> Point list \<Rightarrow> error + NodeRefs \<times> Point list" where
  "visitTransition end transitions currKey testPoint s =
     (let nodeRefs = (case fmlookup (fst s) (key testPoint) of
                        None \<Rightarrow> fmupd (key testPoint) (new_MapNode testPoint) (fst s)
                      | Some n \<Rightarrow> fst s);
          currPoints = snd s
      in case hasAncestor nodeRefs currKey (key testPoint) of
           Inl e \<Rightarrow> Inl e
         | Inr True \<Rightarrow> Inr (nodeRefs, currPoints)
         | Inr False \<Rightarrow>
            (case getAncestors nodeRefs currKey of
               Inl e \<Rightarrow> Inl e
             | Inr ancestorKeys \<Rightarrow>
                (case canReachEnd (key testPoint) (key end) transitions (ancestorKeys @ [currKey]) of
                   Inl e \<Rightarrow> Inl e
                 | Inr (False, h) \<Rightarrow> Inr (nodeRefs, currPoints)
                 | Inr (True, h) \<Rightarrow>
                     Inr (modify currKey (addChild (key testPoint))
                            (modify (key testPoint) (addParent currKey) nodeRefs),
                          if key testPoint = key end then currPoints
                          else currPoints @ [testPoint]))))"

partial_function (option) nodesFromTransitions_loop ::
  "Point \<Rightarrow> Transitions \<Rightarrow> NodeRefs \<times> Point list \<Rightarrow> (error + NodeRefs) option" where
  "nodesFromTransitions_loop endp transitions s =
     (case snd s of
        [] \<Rightarrow> Some (Inr (fst s))
      | currPoint # rest \<Rightarrow>
         (case fmlookup (fst s) (key currPoint) of
            None \<Rightarrow> Some (Inr (fst s))
          | Some currNode \<Rightarrow>
             (case fmlookup transitions (key currPoint) of
                None \<Rightarrow> Some (Inl TypeError)
              | Some transPoints \<Rightarrow>
                 (case for_each (visitTransition endp transitions (key currPoint)) transPoints
                         (fst s, rest) of
                    Inl e \<Rightarrow> Some (Inl e)
                  | Inr s' \<Rightarrow> nodesFromTransitions_loop endp transitions s'))))"

definition nodesFromTransitions :: "Point \<Rightarrow> Point \<Rightarrow> Transitions \<Rightarrow> (error + NodeRefs) option" where
  "nodesFromTransitions start endp transitions =
     nodesFromTransitions_loop endp transitions
       (fmupd (key endp) (new_MapNode endp) (fmupd (key start) (new_MapNode start) fmempty),
        [start])"


section \<open>Numbers\<close>

text \<open>
  The numbers of the program are IEEE 754 doubles, and every arithmetic operation rounds
  its exact result to the nearest double, a tie going to the even significand. \<open>expo x\<close>
  is the exponent \<open>e\<close> with \<open>2 ^ e \<le> x < 2 ^ (e + 1)\<close> of a positive \<open>x\<close>, \<open>rne\<close> rounds to
  the nearest integer with ties to even, and \<open>fl\<close> rounds a real to 53 significant bits
  (fewer in the subnormal range, below \<open>2 ^ - 1022\<close>). Results beyond the largest double
  would be infinite; they do not arise from the values the program computes with.
  Integers below \<open>2 ^ 53\<close> in size are doubles, and sums and comparisons of them are exact:
  counters such as \<open>distSinceFight\<close> are integers.
\<close>

definition pow2 :: "int \<Rightarrow> real" where
  "pow2 e = (if 0 \<le> e then 2 ^ nat e else 1 / 2 ^ nat (- e))"

definition rne :: "real \<Rightarrow> int" where
  "rne x = (let f = \<lfloor>x\<rfloor>; r = x - of_int f
            in if r < 1 / 2 then f else if 1 / 2 < r then f + 1
               else if even f then f else f + 1)"

function expo :: "real \<Rightarrow> int" where
  "expo x = (if x \<le> 0 then 0
             else if 2 \<le> x then expo (x / 2) + 1
             else if x < 1 then expo (2 * x) - 1
             else 0)"
  by pat_completeness auto
termination
proof (relation "measure (\<lambda>x. nat \<bar>\<lfloor>log 2 x\<rfloor>\<bar>)", goal_cases)
  case 1
  show ?case by simp
next
  case (2 x)
  then have x: "2 \<le> x" by simp
  then have "log 2 (x / 2) = log 2 x - 1" by (simp add: log_divide)
  moreover have "1 \<le> log 2 x" using x by (simp add: le_log_iff)
  then have "1 \<le> \<lfloor>log 2 x\<rfloor>" by linarith
  ultimately show ?case by simp
next
  case (3 x)
  then have x: "0 < x" "x < 1" by simp_all
  then have "log 2 (2 * x) = 1 + log 2 x" by (simp add: log_mult)
  moreover have "log 2 x < 0" using x by simp
  then have "\<lfloor>log 2 x\<rfloor> \<le> - 1" by linarith
  ultimately show ?case by simp
qed

definition fl :: "real \<Rightarrow> real" where
  "fl x = (if x = 0 then 0
           else let q = pow2 (max (expo \<bar>x\<bar> - 52) (- 1074))
                in real_of_int (rne (x / q)) * q)"

section \<open>Staging: buildAnimationSteps (index.ts)\<close>

text \<open>
  A path segment is a pair of nodes, \<open>n1\<close> and \<open>n2\<close>; \<open>containsPath\<close> looks for the
  segment or its reverse. \<open>Math.random()\<close> is the sequence \<open>rnd\<close>; \<open>draws\<close> counts the
  calls made so far. \<open>getPortrait\<close> draws one value and turns it into an index of the
  portrait catalogue, whose length is the parameter \<open>numPortraits\<close>: the floor of the
  rounded product.

  \<open>fightChance d\<close> is the value of the expression \<open>0.1*d + 0.1\<close>: the literal \<open>0.1\<close> is
  the double nearest to one tenth, the product is rounded and so is the sum.

  \<open>visitChild\<close> is the body of the loop over the children of a current node,
  \<open>visitNode\<close> the function mapped over the current nodes, \<open>sweep\<close> one round of the
  \<open>while\<close> loop, \<open>staging_init\<close> the code before the loop.
\<close>

type_synonym PathSegment = "key \<times> key"

record Staging =
  mapNodes :: NodeRefs
  steps_nodes :: "key list list"
  steps_paths :: "PathSegment list list"
  currentPaths :: "PathSegment list"
  draws :: nat

definition containsPath :: "PathSegment list \<Rightarrow> PathSegment \<Rightarrow> bool" where
  "containsPath paths path \<longleftrightarrow>
     length (filter (\<lambda>p. (fst p = fst path \<and> snd p = snd path) \<or>
                           (snd p = fst path \<and> fst p = snd path)) paths) \<noteq> 0"

definition getPortrait :: "nat \<Rightarrow> real \<Rightarrow> nat" where
  "getPortrait numPortraits r = nat \<lfloor>fl (r * real numPortraits)\<rfloor>"

definition fightChance :: "int \<Rightarrow> real" where
  "fightChance d = fl (fl (fl (1 / 10) * real_of_int d) + fl (1 / 10))"

definition visitChild ::
  "(nat \<Rightarrow> real) \<Rightarrow> nat \<Rightarrow> key \<Rightarrow> key \<Rightarrow> Staging \<times> key list \<Rightarrow> error + Staging \<times> key list" where
  "visitChild rnd numPortraits currentKey childKey s =
     (let st = fst s; childNodes = snd s
      in case fmlookup (mapNodes st) currentKey of
           None \<Rightarrow> Inl TypeError
         | Some currentNode \<Rightarrow>
      (case fmlookup (mapNodes st) childKey of
           None \<Rightarrow> Inl TypeError
         | Some childNode \<Rightarrow>
      (let childNodes' =
             (if childKey \<notin> set (concat (steps_nodes st)) \<and> childKey \<notin> set childNodes
              then childNodes @ [childKey] else childNodes);
           p = (currentKey, childKey);
           st1 = (if \<not> containsPath (concat (steps_paths st)) p \<and> \<not> containsPath (currentPaths st) p
                  then st\<lparr>currentPaths := currentPaths st @ [p]\<rparr> else st)
       in if distSinceFight childNode = - 1
             \<or> distSinceFight childNode > distSinceFight currentNode + 1
          then
            (if rnd (draws st) < fightChance (distSinceFight currentNode)
             then Inr (st1\<lparr>mapNodes := fmupd childKey
                             (childNode\<lparr>distSinceFight := 0,
                                portrait := Some (getPortrait numPortraits (rnd (draws st + 1)))\<rparr>)
                             (mapNodes st),
                           draws := draws st + 2\<rparr>, childNodes')
             else Inr (st1\<lparr>mapNodes := fmupd childKey
                             (childNode\<lparr>distSinceFight := max (distSinceFight currentNode + 1) 1\<rparr>)
                             (mapNodes st),
                           draws := draws st + 1\<rparr>, childNodes'))
          else Inr (st1, childNodes'))))"

definition visitNode ::
  "(nat \<Rightarrow> real) \<Rightarrow> nat \<Rightarrow> key \<Rightarrow> Staging \<times> key list list \<Rightarrow> error + Staging \<times> key list list" where
  "visitNode rnd numPortraits currentKey s =
     (case fmlookup (mapNodes (fst s)) currentKey of
        None \<Rightarrow> Inl TypeError
      | Some currentNode \<Rightarrow>
         (case for_each (visitChild rnd numPortraits currentKey) (children currentNode) (fst s, []) of
            Inl e \<Rightarrow> Inl e
          | Inr r \<Rightarrow> Inr (fst r, snd s @ [snd r])))"

definition sweep ::
  "(nat \<Rightarrow> real) \<Rightarrow> nat \<Rightarrow> Staging \<times> key list \<Rightarrow> error + Staging \<times> key list" where
  "sweep rnd numPortraits s =
     (let st = fst s; currentNodes = snd s;
          st1 = st\<lparr>steps_nodes := steps_nodes st @ [currentNodes],
                    steps_paths := steps_paths st @ [currentPaths st],
                    currentPaths := []\<rparr>
      in case for_each (visitNode rnd numPortraits) currentNodes (st1, []) of
           Inl e \<Rightarrow> Inl e
         | Inr r \<Rightarrow> Inr (fst r, unique (concat (snd r))))"

partial_function (option) staging_loop ::
  "(nat \<Rightarrow> real) \<Rightarrow> nat \<Rightarrow> Staging \<times> key list \<Rightarrow> (error + Staging) option" where
  "staging_loop rnd numPortraits s =
     (if snd s \<noteq> [] \<or> currentPaths (fst s) \<noteq> [] then
        (case sweep rnd numPortraits s of
           Inl e \<Rightarrow> Some (Inl e)
         | Inr s' \<Rightarrow> staging_loop rnd numPortraits s')
      else Some (Inr (fst s)))"

definition staging_init ::
  "(nat \<Rightarrow> real) \<Rightarrow> nat \<Rightarrow> NodeRefs \<Rightarrow> Point \<Rightarrow> Point \<Rightarrow> error + Staging \<times> key list" where
  "staging_init rnd numPortraits nodes start endp =
     (case fmlookup nodes (key start) of
        None \<Rightarrow> Inl TypeError
      | Some startNode \<Rightarrow>
         (let nodes1 = fmupd (key start) (startNode\<lparr>distSinceFight := 1\<rparr>) nodes
          in case fmlookup nodes1 (key endp) of
               None \<Rightarrow> Inl TypeError
             | Some endNode \<Rightarrow>
                 Inr (\<lparr>mapNodes = fmupd (key endp)
                          (endNode\<lparr>distSinceFight := 0, isBoss := True,
                             portrait := Some (getPortrait numPortraits (rnd 0))\<rparr>) nodes1,
                       steps_nodes = [], steps_paths = [], currentPaths = [], draws = 1\<rparr>,
                      [key start])))"

definition staging ::
  "(nat \<Rightarrow> real) \<Rightarrow> nat \<Rightarrow> NodeRefs \<Rightarrow> Point \<Rightarrow> Point \<Rightarrow> (error + Staging) option" where
  "staging rnd numPortraits nodes start endp =
     (case staging_init rnd numPortraits nodes start endp of
        Inl e \<Rightarrow> Some (Inl e)
      | Inr s \<Rightarrow> staging_loop rnd numPortraits s)"

definition buildAnimationSteps ::
  "(nat \<Rightarrow> real) \<Rightarrow> nat \<Rightarrow> Point \<Rightarrow> Point \<Rightarrow> Transitions \<Rightarrow> (error + Staging) option" where
  "buildAnimationSteps rnd numPortraits start endp transitions =
     (case nodesFromTransitions start endp transitions of
        None \<Rightarrow> None
      | Some (Inl e) \<Rightarrow> Some (Inl e)
      | Some (Inr nodes) \<Rightarrow> staging rnd numPortraits nodes start endp)"

section \<open>Example inputs\<close>

text \<open>A start node with one unresolved child, after the first batch has been committed.\<close>

definition relax_example :: Staging where
  "relax_example =
     \<lparr>mapNodes = fmupd (1, 1) (new_MapNode (1, 1))
                   (fmupd (0, 0) ((new_MapNode (0, 0))\<lparr>distSinceFight := 1, children := [(1, 1)]\<rparr>)
                      fmempty),
      steps_nodes = [[(0, 0)]], steps_paths = [[]], currentPaths = [], draws = 1\<rparr>"

text \<open>
  A node five steps past the last encounter with one unresolved child, and the double
  that the literal \<open>0.6\<close> denotes.
\<close>

definition relax_far :: Staging where
  "relax_far =
     \<lparr>mapNodes = fmupd (1, 1) (new_MapNode (1, 1))
                   (fmupd (0, 0) ((new_MapNode (0, 0))\<lparr>distSinceFight := 5, children := [(1, 1)]\<rparr>)
                      fmempty),
      steps_nodes = [[(0, 0)]], steps_paths = [[]], currentPaths = [], draws = 1\<rparr>"

definition double_six_tenths :: real where
  "double_six_tenths = 5404319552844595 / 2 ^ 53"

text \<open>
  The table of the path \<open>(0,0), (1,1), (2,2)\<close>, and the three nodes that graph building
  makes of it.
\<close>

definition chain_table :: Transitions where
  "chain_table = fmupd (2, 2) [(1, 1)] (fmupd (1, 1) [(0, 0), (2, 2)] (fmupd (0, 0) [(1, 1)] fmempty))"

definition chain_nodes :: NodeRefs where
  "chain_nodes = fmap_of_list [
     ((0, 0), \<lparr>coord = (0, 0), distSinceFight = - 1, isBoss = False, portrait = None,
               parents = [], children = [(1, 1)]\<rparr>),
     ((1, 1), \<lparr>coord = (1, 1), distSinceFight = - 1, isBoss = False, portrait = None,
               parents = [(0, 0)], children = [(2, 2)]\<rparr>),
     ((2, 2), \<lparr>coord = (2, 2), distSinceFight = - 1, isBoss = False, portrait = None,
               parents = [(1, 1)], children = []\<rparr>)]"

section \<open>Routes through a transition table\<close>

text \<open>
  \<open>neighbour tr k k'\<close>: the entry of \<open>k\<close> lists a point with key \<open>k'\<close>. A route is a
  non-empty list of keys in which each key is a neighbour of the one before it.
  \<open>reaches tr s e h\<close>: some route leads from \<open>s\<close> to \<open>e\<close> and none of its keys after \<open>s\<close> is
  in \<open>h\<close>. In a closed table every listed point has an entry of its own, as in every
  table that \<open>populateTransitions\<close> fills.
\<close>

definition neighbour :: "Transitions \<Rightarrow> key \<Rightarrow> key \<Rightarrow> bool" where
  "neighbour tr k k' \<longleftrightarrow>
     (case fmlookup tr k of None \<Rightarrow> False | Some ps \<Rightarrow> k' \<in> key ` set ps)"

fun route :: "Transitions \<Rightarrow> key list \<Rightarrow> bool" where
  "route tr [] = False"
| "route tr [k] = True"
| "route tr (k # k' # ks) = (neighbour tr k k' \<and> route tr (k' # ks))"

definition closed_table :: "Transitions \<Rightarrow> bool" where
  "closed_table tr \<longleftrightarrow>
     (\<forall>k ps. fmlookup tr k = Some ps \<longrightarrow> (\<forall>p \<in> set ps. key p \<in> fmdom' tr))"

definition reaches :: "Transitions \<Rightarrow> key \<Rightarrow> key \<Rightarrow> key list \<Rightarrow> bool" where
  "reaches tr s e h \<longleftrightarrow>
     (\<exists>ks. route tr (s # ks) \<and> last (s # ks) = e \<and> set ks \<inter> set h = {})"

section \<open>Node graphs\<close>

text \<open>
  \<open>kids m k\<close> is the children array of the node stored under \<open>k\<close>. In a closed record
  every child listed by a node is itself stored, as object references guarantee.
  \<open>reachable m s\<close> are the keys that child links lead to from \<open>s\<close>. \<open>fights\<close> are the
  nodes marked as encounters, \<open>bosses\<close> the nodes flagged as boss; \<open>dsf_ok\<close> says that no
  \<open>distSinceFight\<close> is below the unresolved value \<open>-1\<close>.
\<close>

definition kids :: "NodeRefs \<Rightarrow> key \<Rightarrow> key list" where
  "kids m k = (case fmlookup m k of None \<Rightarrow> [] | Some n \<Rightarrow> children n)"

definition closed_nodes :: "NodeRefs \<Rightarrow> bool" where
  "closed_nodes m \<longleftrightarrow> (\<forall>k n. fmlookup m k = Some n \<longrightarrow> set (children n) \<subseteq> fmdom' m)"

definition reachable :: "NodeRefs \<Rightarrow> key \<Rightarrow> key set" where
  "reachable m s = {k. (s, k) \<in> {(u, v). v \<in> set (kids m u)}\<^sup>*}"

definition fights :: "NodeRefs \<Rightarrow> key set" where
  "fights m = {k. \<exists>n. fmlookup m k = Some n \<and> distSinceFight n = 0}"

definition bosses :: "NodeRefs \<Rightarrow> key set" where
  "bosses m = {k. \<exists>n. fmlookup m k = Some n \<and> isBoss n}"

definition dsf_ok :: "NodeRefs \<Rightarrow> bool" where
  "dsf_ok m \<longleftrightarrow> (\<forall>k n. fmlookup m k = Some n \<longrightarrow> distSinceFight n \<ge> - 1)"

section \<open>Notions used in the staging proofs\<close>

text \<open>
  \<open>new_kid\<close> and \<open>new_path\<close> are the two conditional pushes of \<open>visitChild\<close>;
  \<open>next_nodes\<close> and \<open>next_paths\<close> are what one sweep computes from them. \<open>keeps\<close> and
  \<open>evolves\<close> relate a state to a later one. \<open>stage_inv\<close> is the invariant of the
  \<open>while\<close> loop, with the batches listed newest first in \<open>parent_ok\<close> and \<open>closure_ok\<close>,
  and \<open>stage_measure\<close> decreases with every sweep.
\<close>

definition same_shape :: "NodeRefs \<Rightarrow> NodeRefs \<Rightarrow> bool" where
  "same_shape m m' \<longleftrightarrow> fmdom' m = fmdom' m' \<and> (\<forall>k. kids m k = kids m' k)"

definition new_kid :: "key set \<Rightarrow> key list \<Rightarrow> key \<Rightarrow> key list" where
  "new_kid S cn c = (if c \<notin> S \<and> c \<notin> set cn then cn @ [c] else cn)"

definition new_path :: "PathSegment list \<Rightarrow> PathSegment list \<Rightarrow> PathSegment \<Rightarrow> PathSegment list" where
  "new_path D ps p = (if \<not> containsPath D p \<and> \<not> containsPath ps p then ps @ [p] else ps)"

definition keeps :: "Staging \<Rightarrow> Staging \<Rightarrow> bool" where
  "keeps st st' \<longleftrightarrow> steps_nodes st' = steps_nodes st \<and> steps_paths st' = steps_paths st
     \<and> same_shape (mapNodes st') (mapNodes st)
     \<and> (dsf_ok (mapNodes st) \<longrightarrow> dsf_ok (mapNodes st') \<and> fights (mapNodes st) \<subseteq> fights (mapNodes st'))
     \<and> bosses (mapNodes st') = bosses (mapNodes st)"

definition next_nodes :: "(key \<Rightarrow> key list) \<Rightarrow> key set \<Rightarrow> key list \<Rightarrow> key list" where
  "next_nodes K S curs = unique (concat (map (\<lambda>cur. fold (\<lambda>c cn. new_kid S cn c) (K cur) []) curs))"

definition next_paths :: "(key \<Rightarrow> key list) \<Rightarrow> PathSegment list \<Rightarrow> key list \<Rightarrow> PathSegment list" where
  "next_paths K D curs =
     fold (\<lambda>e ps. new_path D ps e) (concat (map (\<lambda>cur. map (\<lambda>c. (cur, c)) (K cur)) curs)) []"

definition evolves :: "NodeRefs \<Rightarrow> NodeRefs \<Rightarrow> bool" where
  "evolves m m' \<longleftrightarrow> same_shape m' m
     \<and> (dsf_ok m \<longrightarrow> dsf_ok m' \<and> fights m \<subseteq> fights m')
     \<and> bosses m' = bosses m"

definition sameEdge :: "PathSegment \<Rightarrow> PathSegment \<Rightarrow> bool" where
  "sameEdge p q \<longleftrightarrow> (fst p = fst q \<and> snd p = snd q) \<or> (snd p = fst q \<and> fst p = snd q)"

fun edistinct :: "PathSegment list \<Rightarrow> bool" where
  "edistinct [] = True"
| "edistinct (p # ps) = (\<not> containsPath ps p \<and> edistinct ps)"

fun parent_ok :: "(key \<Rightarrow> key list) \<Rightarrow> key list list \<Rightarrow> bool" where
  "parent_ok K (b2 # b1 # older) =
     ((\<forall>v \<in> set b2. \<exists>u \<in> set b1. v \<in> set (K u)) \<and> parent_ok K (b1 # older))"
| "parent_ok K bs = True"

fun closure_ok :: "(key \<Rightarrow> key list) \<Rightarrow> key list list \<Rightarrow> bool" where
  "closure_ok K (b2 # b1 # older) =
     ((\<forall>u \<in> set b1. set (K u) \<subseteq> set (concat (b2 # b1 # older))) \<and> closure_ok K (b1 # older))"
| "closure_ok K bs = True"

definition stage_inv :: "NodeRefs \<Rightarrow> key \<Rightarrow> Staging \<times> key list \<Rightarrow> bool" where
  "stage_inv nodes0 start s \<longleftrightarrow>
     same_shape (mapNodes (fst s)) nodes0
   \<and> distinct (concat (steps_nodes (fst s)) @ snd s)
   \<and> set (concat (steps_nodes (fst s))) \<union> set (snd s) \<subseteq> reachable nodes0 start
   \<and> start \<in> set (concat (steps_nodes (fst s))) \<union> set (snd s)
   \<and> (\<forall>u \<in> set (concat (steps_nodes (fst s))).
         set (kids nodes0 u) \<subseteq> set (concat (steps_nodes (fst s))) \<union> set (snd s))
   \<and> edistinct (concat (steps_paths (fst s)) @ currentPaths (fst s))
   \<and> (\<forall>e \<in> set (concat (steps_paths (fst s)) @ currentPaths (fst s)).
         fst e \<in> set (concat (steps_nodes (fst s))) \<and> snd e \<in> set (kids nodes0 (fst e)))
   \<and> (\<forall>u \<in> set (concat (steps_nodes (fst s))). \<forall>v \<in> set (kids nodes0 u).
         containsPath (concat (steps_paths (fst s)) @ currentPaths (fst s)) (u, v))
   \<and> parent_ok (kids nodes0) (snd s # rev (steps_nodes (fst s)))
   \<and> closure_ok (kids nodes0) (snd s # rev (steps_nodes (fst s)))
   \<and> last (snd s # rev (steps_nodes (fst s))) = [start]"

definition stage_measure :: "NodeRefs \<Rightarrow> Staging \<times> key list \<Rightarrow> nat" where
  "stage_measure nodes0 s =
     2 * card (fmdom' nodes0 - (set (concat (steps_nodes (fst s))) \<union> set (snd s)))
     + (if snd s \<noteq> [] then 2 else if currentPaths (fst s) \<noteq> [] then 1 else 0)"

section \<open>A table with a loop\<close>

text \<open>
  A main path and a second path between two of its points, as \<open>run\<close> merges them:
  the second path reaches \<open>(2,2)\<close> the long way round.
\<close>

definition loop_path :: "Point list" where
  "loop_path = [(0, 2), (1, 1), (2, 2), (3, 1)]"

definition loop_subPath :: "Point list" where
  "loop_subPath = [(0, 2), (1, 3), (2, 4), (3, 3), (2, 2)]"

definition loop_table :: Transitions where
  "loop_table = populateTransitions loop_subPath (populateTransitions loop_path fmempty)"

definition loop_table_lit :: Transitions where
  "loop_table_lit = fmap_of_list [
     ((0, 2), [(1, 1), (1, 3)]), ((1, 1), [(0, 2), (2, 2)]), ((2, 2), [(1, 1), (3, 1), (3, 3)]),
     ((3, 1), [(2, 2)]), ((1, 3), [(0, 2), (2, 4)]), ((2, 4), [(1, 3), (3, 3)]),
     ((3, 3), [(2, 4), (2, 2)])]"

definition loop_nodes :: NodeRefs where
  "loop_nodes = fmap_of_list [
     ((0, 2), \<lparr>coord = (0, 2), distSinceFight = - 1, isBoss = False, portrait = None,
               parents = [], children = [(1, 1), (1, 3)]\<rparr>),
     ((1, 1), \<lparr>coord = (1, 1), distSinceFight = - 1, isBoss = False, portrait = None,
               parents = [(0, 2)], children = [(2, 2)]\<rparr>),
     ((1, 3), \<lparr>coord = (1, 3), distSinceFight = - 1, isBoss = False, portrait = None,
               parents = [(0, 2)], children = [(2, 4)]\<rparr>),
     ((2, 2), \<lparr>coord = (2, 2), distSinceFight = - 1, isBoss = False, portrait = None,
               parents = [(1, 1), (3, 3)], children = [(3, 1)]\<rparr>),
     ((2, 4), \<lparr>coord = (2, 4), distSinceFight = - 1, isBoss = False, portrait = None,
               parents = [(1, 3)], children = [(3, 3)]\<rparr>),
     ((3, 1), \<lparr>coord = (3, 1), distSinceFight = - 1, isBoss = False, portrait = None,
               parents = [(2, 2)], children = []\<rparr>),
     ((3, 3), \<lparr>coord = (3, 3), distSinceFight = - 1, isBoss = False, portrait = None,
               parents = [(2, 4)], children = [(2, 2)]\<rparr>)]"

section \<open>Notions used in the search proofs\<close>

text \<open>
  \<open>inb\<close> is the bounds test of \<open>generateAdjacencies\<close>, \<open>gvertex\<close> the vertex the constructor
  stores at a coordinate, \<open>diag\<close> the in-bounds diagonal neighbours of a point in the order
  of the offsets, and \<open>even_cells\<close> the cells that get an adjacency entry.

  The search is verified over any graph \<open>graph_ok\<close>: finitely many vertices, one per
  point, with costs that are not negative and adjacency lists that stay inside the
  graph. \<open>tree_inv\<close> says that \<open>origin\<close> is a tree towards the start over the points with a
  recorded cost; \<open>ghost_inv\<close> that every recorded cost is the cost of a simple path, which
  bounds the number of times a cost can be lowered (\<open>phi\<close>); \<open>front_inv\<close> that a point with
  a recorded cost is in the frontier or has had its neighbours looked at.
\<close>

definition inb :: "int \<Rightarrow> int \<Rightarrow> Point \<Rightarrow> bool" where
  "inb width height p \<longleftrightarrow> 0 \<le> fst p \<and> fst p < width \<and> 0 \<le> snd p \<and> snd p < height"

definition gvertex :: "(nat \<Rightarrow> real) \<Rightarrow> int \<Rightarrow> int \<Rightarrow> Point \<Rightarrow> Vertex" where
  "gvertex rnd width height p =
     \<lparr>vpos = p, cost = rnd (nat (fst p * height + snd p)) * real_of_int (width + height) / 10\<rparr>"

definition diag :: "int \<Rightarrow> int \<Rightarrow> Point \<Rightarrow> Point list" where
  "diag width height p =
     filter (inb width height)
       (map (\<lambda>offsets. (fst p + fst offsets, snd p + snd offsets))
          [(1, 1), (- 1, 1), (- 1, - 1), (1, - 1)])"

definition graph_ok :: "AStar \<Rightarrow> (Point \<Rightarrow> Vertex) \<Rightarrow> Point set \<Rightarrow> (Point \<Rightarrow> Point list) \<Rightarrow> bool" where
  "graph_ok a V Vs adj \<longleftrightarrow>
     finite Vs \<and> (\<forall>p. vpos (V p) = p) \<and> (\<forall>p \<in> Vs. 0 \<le> cost (V p))
   \<and> (\<forall>p \<in> Vs. fmlookup (adjacencies a) p = Some (map V (adj p)) \<and> set (adj p) \<subseteq> Vs)"

definition cst :: "Search \<Rightarrow> Point \<Rightarrow> real" where
  "cst s v = (case fmlookup (costs s) v of None \<Rightarrow> 0 | Some x \<Rightarrow> x)"

definition pcost :: "(Point \<Rightarrow> Vertex) \<Rightarrow> Point list \<Rightarrow> real" where
  "pcost V p = sum_list (map (\<lambda>x. cost (V x)) p)"

definition pcosts :: "(Point \<Rightarrow> Vertex) \<Rightarrow> Point set \<Rightarrow> real set" where
  "pcosts V Vs = pcost V ` {p. set p \<subseteq> Vs \<and> distinct p}"

definition phi :: "(Point \<Rightarrow> Vertex) \<Rightarrow> Point set \<Rightarrow> (key, real) fmap \<Rightarrow> nat" where
  "phi V Vs cs = (\<Sum>v \<in> Vs. case fmlookup cs v of
                              None \<Rightarrow> card (pcosts V Vs) + 1
                            | Some x \<Rightarrow> card {y \<in> pcosts V Vs. y < x})"

definition tree_inv ::
  "(Point \<Rightarrow> Vertex) \<Rightarrow> Point set \<Rightarrow> (Point \<Rightarrow> Point list) \<Rightarrow> Point \<Rightarrow> Search \<Rightarrow> bool" where
  "tree_inv V Vs adj start s \<longleftrightarrow>
     fmdom' (origin s) = fmdom' (costs s)
   \<and> fmdom' (costs s) \<subseteq> Vs
   \<and> fmlookup (costs s) start = Some 0
   \<and> fmlookup (origin s) start = Some None
   \<and> (\<forall>v \<in> fmdom' (costs s). 0 \<le> cst s v)
   \<and> (\<forall>v u'. fmlookup (origin s) v = Some (Some u') \<longrightarrow>
         v \<noteq> start \<and> (\<exists>u \<in> fmdom' (costs s). u' = V u \<and> v \<in> set (adj u) \<and> cst s u \<le> cst s v))
   \<and> (\<forall>v \<in> fmdom' (costs s). v \<noteq> start \<longrightarrow> (\<exists>u'. fmlookup (origin s) v = Some (Some u')))
   \<and> acyclic {(v, u). fmlookup (origin s) v = Some (Some (V u))}"

definition ghost_inv :: "(Point \<Rightarrow> Vertex) \<Rightarrow> Point set \<Rightarrow> (Point \<Rightarrow> Point list) \<Rightarrow> Search \<Rightarrow> bool" where
  "ghost_inv V Vs w s \<longleftrightarrow>
     (\<forall>v \<in> fmdom' (costs s). cst s v = pcost V (w v) \<and> distinct (w v) \<and> set (w v) \<subseteq> Vs
        \<and> (\<forall>n < length (w v). w v ! n \<in> fmdom' (costs s)
               \<and> cst s (w v ! n) \<le> pcost V (take (Suc n) (w v))))"

definition front_inv ::
  "(Point \<Rightarrow> Vertex) \<Rightarrow> (Point \<Rightarrow> Point list) \<Rightarrow> Point \<Rightarrow> Point set \<Rightarrow> Search \<Rightarrow> bool" where
  "front_inv V adj endp X s \<longleftrightarrow>
     (\<forall>e \<in> set (frontier s). \<exists>p \<in> fmdom' (costs s). data e = V p)
   \<and> (\<forall>u \<in> fmdom' (costs s). u \<in> X \<or> V u \<in> data ` set (frontier s)
          \<or> set (adj u) \<subseteq> fmdom' (costs s))
   \<and> (endp \<in> fmdom' (costs s) \<longrightarrow> V endp \<in> data ` set (frontier s))"

definition fires :: "(Point \<Rightarrow> Vertex) \<Rightarrow> Search \<Rightarrow> Point \<Rightarrow> Point \<Rightarrow> bool" where
  "fires V s cur v \<longleftrightarrow>
     (case fmlookup (costs s) v of None \<Rightarrow> True | Some old \<Rightarrow> cst s cur + cost (V v) < old)"

definition fired :: "(Point \<Rightarrow> Vertex) \<Rightarrow> Point \<Rightarrow> Search \<Rightarrow> Point \<Rightarrow> Point \<Rightarrow> Search" where
  "fired V endp s cur v =
     \<lparr>frontier = pq_insert (frontier s) (V v)
                   (cst s cur + cost (V v) + manhattanDistance (V v) (V endp) / sqrt 2),
      costs = fmupd v (cst s cur + cost (V v)) (costs s),
      origin = fmupd v (Some (V cur)) (origin s)\<rparr>"

definition search_start :: "(Point \<Rightarrow> Vertex) \<Rightarrow> Point \<Rightarrow> Search" where
  "search_start V start =
     \<lparr>frontier = pq_insert [] (V start) 0,
      costs = fmupd start 0 fmempty,
      origin = fmupd start None fmempty\<rparr>"

definition even_cells :: "int \<Rightarrow> int \<Rightarrow> Point set" where
  "even_cells width height = {p. inb width height p \<and> even (fst p + snd p)}"

section \<open>Notions used in the graph-building proofs\<close>

text \<open>
  \<open>parent_rel m\<close> holds the pairs of a node and one of its parents, \<open>ancestors m k\<close> the
  keys that \<open>hasAncestor\<close> finds from \<open>k\<close>. In \<open>linked_nodes\<close> every parent is itself stored
  and no chain of parent links returns to where it began. A table is \<open>loop_free\<close> when no
  entry lists its own key. \<open>build_inv\<close> is the invariant of the work-queue loop, \<open>link\<close> the
  pair of updates \<open>addParent\<close> and \<open>addChild\<close>, and \<open>build_measure\<close> the quantity that every
  round of the loop lowers: a queued point weighs more the fewer ancestors it has.
  \<open>table_of\<close> fills an empty table from a list of paths.
\<close>

definition parent_rel :: "NodeRefs \<Rightarrow> (key \<times> key) set" where
  "parent_rel m = {(c, p). \<exists>n. fmlookup m c = Some n \<and> p \<in> set (parents n)}"

definition ancestors :: "NodeRefs \<Rightarrow> key \<Rightarrow> key set" where
  "ancestors m k = {a. (k, a) \<in> (parent_rel m)\<^sup>+}"

definition linked_nodes :: "NodeRefs \<Rightarrow> bool" where
  "linked_nodes m \<longleftrightarrow> parent_rel m \<subseteq> fmdom' m \<times> fmdom' m \<and> acyclic (parent_rel m)"

definition loop_free :: "Transitions \<Rightarrow> bool" where
  "loop_free tr \<longleftrightarrow> (\<forall>k. \<not> neighbour tr k k)"

definition build_inv :: "Transitions \<Rightarrow> key \<Rightarrow> key set \<Rightarrow> NodeRefs \<Rightarrow> bool" where
  "build_inv tr e U m \<longleftrightarrow>
     linked_nodes m \<and> fmdom' m \<subseteq> U
   \<and> (\<forall>p n c. fmlookup m p = Some n \<longrightarrow> (c \<in> set (children n) \<longleftrightarrow> (c, p) \<in> parent_rel m))
   \<and> (\<forall>c p. (c, p) \<in> parent_rel m \<longrightarrow> neighbour tr p c \<and> reaches tr c e [])"

definition link :: "key \<Rightarrow> key \<Rightarrow> NodeRefs \<Rightarrow> NodeRefs" where
  "link ck t m = modify ck (addChild t) (modify t (addParent ck) m)"

definition weight :: "nat \<Rightarrow> nat \<Rightarrow> NodeRefs \<Rightarrow> Point \<Rightarrow> nat" where
  "weight B N m p = Suc B ^ (N - card (ancestors m (key p)))"

definition build_measure :: "nat \<Rightarrow> nat \<Rightarrow> NodeRefs \<times> Point list \<Rightarrow> nat" where
  "build_measure B N s = sum_list (map (weight B N (fst s)) (snd s))"

definition table_of :: "Point list list \<Rightarrow> Transitions" where
  "table_of paths = fold populateTransitions paths fmempty"

section \<open>Notions used in the encounter proofs\<close>

text \<open>
  \<open>round_state rnd np n init\<close> is the state at the start of round \<open>n\<close> of the \<open>while\<close> loop,
  when the loop gets that far. \<open>relaxation rnd np init currentKey childKey st st'\<close> says
  that during the run from \<open>init\<close> the loop body is executed for the child \<open>childKey\<close> of the
  current node \<open>currentKey\<close> in the state \<open>st\<close> and leaves the state \<open>st'\<close>: some round has been
  reached, the batch has been committed, the current nodes before this one and the
  children before this one have been visited. \<open>resolved\<close> are the nodes whose
  \<open>distSinceFight\<close> is at least 0, and \<open>enc_inv\<close> is what every relaxation keeps.
\<close>

primrec round_state ::
  "(nat \<Rightarrow> real) \<Rightarrow> nat \<Rightarrow> nat \<Rightarrow> Staging \<times> key list \<Rightarrow> (Staging \<times> key list) option" where
  "round_state rnd np 0 s = Some s"
| "round_state rnd np (Suc n) s =
     (case round_state rnd np n s of
        None \<Rightarrow> None
      | Some s' \<Rightarrow>
          (if snd s' \<noteq> [] \<or> currentPaths (fst s') \<noteq> [] then
             (case sweep rnd np s' of Inl e \<Rightarrow> None | Inr s'' \<Rightarrow> Some s'')
           else None))"

definition relaxation ::
  "(nat \<Rightarrow> real) \<Rightarrow> nat \<Rightarrow> Staging \<times> key list \<Rightarrow> key \<Rightarrow> key \<Rightarrow> Staging \<Rightarrow> Staging \<Rightarrow> bool" where
  "relaxation rnd np init currentKey childKey st st' \<longleftrightarrow>
     (\<exists>n s j sj acc currentNode i childNodes childNodes'.
        round_state rnd np n init = Some s
      \<and> (snd s \<noteq> [] \<or> currentPaths (fst s) \<noteq> [])
      \<and> j < length (snd s) \<and> currentKey = snd s ! j
      \<and> for_each (visitNode rnd np) (take j (snd s))
           ((fst s)\<lparr>steps_nodes := steps_nodes (fst s) @ [snd s],
                     steps_paths := steps_paths (fst s) @ [currentPaths (fst s)],
                     currentPaths := []\<rparr>, []) = Inr (sj, acc)
      \<and> fmlookup (mapNodes sj) currentKey = Some currentNode
      \<and> i < length (children currentNode) \<and> childKey = children currentNode ! i
      \<and> for_each (visitChild rnd np currentKey) (take i (children currentNode)) (sj, [])
           = Inr (st, childNodes)
      \<and> visitChild rnd np currentKey childKey (st, childNodes) = Inr (st', childNodes'))"

text \<open>
  \<open>fresh_nodes S m\<close>: the nodes of \<open>m\<close> are as the constructor left them apart from their
  links, every child is itself stored, and the keys \<open>S\<close> are stored.
\<close>

definition fresh_nodes :: "key set \<Rightarrow> NodeRefs \<Rightarrow> bool" where
  "fresh_nodes S m \<longleftrightarrow>
     S \<subseteq> fmdom' m
   \<and> (\<forall>k n. fmlookup m k = Some n \<longrightarrow>
         distSinceFight n = - 1 \<and> \<not> isBoss n \<and> set (children n) \<subseteq> fmdom' m)"

definition resolved :: "NodeRefs \<Rightarrow> key set" where
  "resolved m = {k. \<exists>n. fmlookup m k = Some n \<and> 0 \<le> distSinceFight n}"

definition enc_inv :: "key \<Rightarrow> key set \<Rightarrow> key set \<Rightarrow> NodeRefs \<Rightarrow> bool" where
  "enc_inv e X F m \<longleftrightarrow>
     dsf_ok m \<and> bosses m = {e} \<and> e \<in> fights m \<and> X \<subseteq> resolved m \<and> F \<subseteq> fights m"

section \<open>Properties of the priority queue\<close>

lemma set_splice_at: "set (splice_at xs idx v) = insert v (set xs)"
proof -
  have "set (take idx xs) \<union> set (drop idx xs) = set xs"
    by (metis append_take_drop_id set_append)
  then show ?thesis by (auto simp: splice_at_def)
qed

lemma length_splice_at: "length (splice_at xs idx v) = Suc (length xs)"
  by (simp add: splice_at_def)

lemma set_pq_insert:
  "set (pq_insert q d prio) = insert \<lparr>data = d, priority = prio\<rparr> (set q)"
  by (simp add: pq_insert_def set_splice_at)

lemma length_pq_insert: "length (pq_insert q d prio) = Suc (length q)"
  by (simp add: pq_insert_def length_splice_at)

text \<open>
  Claim C1. Inserting \<open>a\<close> with priority 1 and then \<open>b\<close> with priority 2 leaves no entry
  greater than 2 to stop the scan, so \<open>b\<close> is spliced in at index 0: the items are
  dequeued as \<open>b\<close> (priority 2) and then \<open>a\<close> (priority 1), in decreasing priority order.
  With equal priorities the same happens: the later item comes out first.
\<close>

theorem pq_insert_largest_goes_first:
  "dequeue_all (pq_insert (pq_insert [] ''a'' 1) ''b'' 2) = [''b'', ''a'']
   \<and> dequeue (pq_insert (pq_insert [] ''a'' 1) ''b'' 2)
       = (Some ''b'', [\<lparr>data = ''a'', priority = 1\<rparr>])
   \<and> dequeue_all (pq_insert (pq_insert [] ''a'' 1) ''b'' 1) = [''b'', ''a'']"
  by (simp add: pq_insert_def splice_at_def dequeue_def)

section \<open>Rounding\<close>

declare expo.simps [simp del]

lemmas fl_eval = fl_def expo.simps pow2_def rne_def Let_def

lemma fl_tenth: "fl (1 / 10) = 3602879701896397 / 2 ^ 55"
  by (simp add: fl_eval)

lemma fightChance_values:
  "fightChance 0 = 3602879701896397 / 2 ^ 55"
  "fightChance 1 = 3602879701896397 / 2 ^ 54"
  "fightChance 2 = 5404319552844596 / 2 ^ 54"
  "fightChance 3 = 3602879701896397 / 2 ^ 53"
  "fightChance 4 = 1 / 2"
  "fightChance 5 = 5404319552844595 / 2 ^ 53"
  by (simp_all add: fightChance_def fl_tenth) (simp_all add: fl_eval)

section \<open>Encounter assignment\<close>

lemma visitChild_result:
  assumes "fmlookup (mapNodes st) currentKey = Some currentNode"
    and "fmlookup (mapNodes st) childKey = Some childNode"
  shows "\<exists>st' childNodes' childNode'.
           visitChild rnd numPortraits currentKey childKey (st, childNodes) = Inr (st', childNodes')
         \<and> fmlookup (mapNodes st') childKey = Some childNode'
         \<and> distSinceFight childNode' =
             (if distSinceFight childNode = - 1
                 \<or> distSinceFight childNode > distSinceFight currentNode + 1
              then (if rnd (draws st) < fightChance (distSinceFight currentNode)
                    then 0 else max (distSinceFight currentNode + 1) 1)
              else distSinceFight childNode)
         \<and> portrait childNode' =
             (if (distSinceFight childNode = - 1
                   \<or> distSinceFight childNode > distSinceFight currentNode + 1)
                 \<and> rnd (draws st) < fightChance (distSinceFight currentNode)
              then Some (getPortrait numPortraits (rnd (draws st + 1)))
              else portrait childNode)
         \<and> isBoss childNode' = isBoss childNode
         \<and> (\<forall>k. k \<noteq> childKey \<longrightarrow> fmlookup (mapNodes st') k = fmlookup (mapNodes st) k)
         \<and> set childNodes' \<subseteq> insert childKey (set childNodes)"
  using assms by (auto simp: visitChild_def Let_def)

text \<open>
  Claim C8, as stated, with the threshold \<open>0.1 * d + 0.1\<close> read as a real number. The
  program computes it in doubles: for a parent five steps past the last encounter the
  product is the double \<open>0.5\<close> and the sum the double \<open>0.6\<close>, which is below six tenths. A
  draw equal to that double is below the real threshold, yet the relaxation does not mark
  the child: its \<open>distSinceFight\<close> becomes 6.
\<close>

theorem visitChild_real_threshold_counterexample:
  "double_six_tenths < 0.1 * real_of_int 5 + 0.1
     \<and> map_option distSinceFight (fmlookup (mapNodes relax_far) (0, 0)) = Some 5
     \<and> map_option distSinceFight (fmlookup (mapNodes relax_far) (1, 1)) = Some (- 1)
     \<and> (\<exists>st' childNodes'.
           visitChild (\<lambda>k. double_six_tenths) 5 (0, 0) (1, 1) (relax_far, []) = Inr (st', childNodes')
         \<and> map_option distSinceFight (fmlookup (mapNodes st') (1, 1)) = Some 6)"
  by (simp add: visitChild_def Let_def relax_far_def new_MapNode_def double_six_tenths_def
        fightChance_values)

text \<open>
  Claim C8, amended. One relaxation of a (parent, child) pair changes the child's
  \<open>distSinceFight\<close> only when it is \<open>-1\<close> or greater than the parent's value plus one. Then,
  with \<open>r\<close> the value drawn and \<open>d\<close> the parent's value, it becomes 0 and a portrait is
  requested when \<open>r\<close> is below the double that \<open>0.1*d + 0.1\<close> evaluates to, and
  \<open>max (d + 1) 1\<close> otherwise. In every other case it is left as it was. No other node is
  touched.
\<close>

theorem visitChild_distSinceFight:
  assumes "fmlookup (mapNodes st) currentKey = Some currentNode"
    and "fmlookup (mapNodes st) childKey = Some childNode"
  shows "\<exists>st' childNodes' childNode'.
           visitChild rnd numPortraits currentKey childKey (st, childNodes) = Inr (st', childNodes')
         \<and> fmlookup (mapNodes st') childKey = Some childNode'
         \<and> distSinceFight childNode' =
             (if distSinceFight childNode = - 1
                 \<or> distSinceFight childNode > distSinceFight currentNode + 1
              then (if rnd (draws st) < fightChance (distSinceFight currentNode)
                    then 0 else max (distSinceFight currentNode + 1) 1)
              else distSinceFight childNode)
         \<and> portrait childNode' =
             (if (distSinceFight childNode = - 1
                   \<or> distSinceFight childNode > distSinceFight currentNode + 1)
                 \<and> rnd (draws st) < fightChance (distSinceFight currentNode)
              then Some (getPortrait numPortraits (rnd (draws st + 1)))
              else portrait childNode)
         \<and> (\<forall>k. k \<noteq> childKey \<longrightarrow> fmlookup (mapNodes st') k = fmlookup (mapNodes st) k)"
  using visitChild_result[OF assms, of rnd numPortraits childNodes] by blast

theorem visitChild_distSinceFight_witness:
  "\<exists>st' childNodes' childNode'.
      visitChild (\<lambda>k. 1 / 2) 5 (0, 0) (1, 1) (relax_example, []) = Inr (st', childNodes')
    \<and> fmlookup (mapNodes st') (1, 1) = Some childNode'
    \<and> distSinceFight childNode' = 2
    \<and> portrait childNode' = None
    \<and> (\<forall>k. k \<noteq> (1, 1) \<longrightarrow> fmlookup (mapNodes st') k = fmlookup (mapNodes relax_example) k)"
  using visitChild_distSinceFight [of relax_example "(0, 0)"
      "(new_MapNode (0, 0))\<lparr>distSinceFight := 1, children := [(1, 1)]\<rparr>" "(1, 1)"
      "new_MapNode (1, 1)" "\<lambda>k. 1 / 2" 5 "[]"]
  by (simp add: relax_example_def new_MapNode_def fightChance_values)

section \<open>The three-node chain\<close>

lemmas graph_eval = nodesFromTransitions_def nodesFromTransitions_loop.simps key_def
     visitTransition_def hasAncestor_def getAncestors_def new_MapNode_def modify_def
     addChild_def addParent_def fcard_finsert_if Let_def

lemmas staging_eval = staging_def staging_init_def staging_loop.simps sweep_def visitNode_def
   visitChild_def containsPath_def unique_def Let_def

lemma chain_nodesFromTransitions:
  "nodesFromTransitions (0, 0) (2, 2) chain_table = Some (Inr chain_nodes)"
proof -
  have "\<exists>r. nodesFromTransitions (0, 0) (2, 2) chain_table = Some (Inr r)
          \<and> (\<forall>k. fmlookup r k = fmlookup chain_nodes k)"
    by (simp add: graph_eval chain_table_def chain_nodes_def fmlookup_of_list)
  then obtain r where r: "nodesFromTransitions (0, 0) (2, 2) chain_table = Some (Inr r)"
    and l: "\<And>k. fmlookup r k = fmlookup chain_nodes k" by blast
  from l have "r = chain_nodes" by (rule fmap_ext)
  with r show ?thesis by simp
qed

text \<open>
  Claim C9. For the table \<open>{(0,0): [(1,1)], (1,1): [(0,0),(2,2)], (2,2): [(1,1)]}\<close> with
  start \<open>(0,0)\<close> and end \<open>(2,2)\<close>, graph building returns exactly three nodes, with the
  children \<open>[(1,1)]\<close>, \<open>[(2,2)]\<close> and \<open>[]\<close>; staging returns the node batches
  \<open>[[(0,0)], [(1,1)], [(2,2)]]\<close> and the edge batches
  \<open>[[], [(0,0)-(1,1)], [(1,1)-(2,2)]]\<close>, whatever the random draws are.
\<close>

theorem chain_scenario:
  "nodesFromTransitions (0, 0) (2, 2) chain_table = Some (Inr chain_nodes)
   \<and> fmdom' chain_nodes = {(0, 0), (1, 1), (2, 2)}
   \<and> map_option children (fmlookup chain_nodes (0, 0)) = Some [(1, 1)]
   \<and> map_option children (fmlookup chain_nodes (1, 1)) = Some [(2, 2)]
   \<and> map_option children (fmlookup chain_nodes (2, 2)) = Some []
   \<and> (\<forall>rnd numPortraits. \<exists>st.
         buildAnimationSteps rnd numPortraits (0, 0) (2, 2) chain_table = Some (Inr st)
       \<and> steps_nodes st = [[(0, 0)], [(1, 1)], [(2, 2)]]
       \<and> steps_paths st = [[], [((0, 0), (1, 1))], [((1, 1), (2, 2))]])"
proof -
  have a: "fmdom' chain_nodes = {(0, 0), (1, 1), (2, 2)}"
    by (auto simp: chain_nodes_def fmdom'_alt_def)
  have b: "map_option children (fmlookup chain_nodes (0, 0)) = Some [(1, 1)]"
          "map_option children (fmlookup chain_nodes (1, 1)) = Some [(2, 2)]"
          "map_option children (fmlookup chain_nodes (2, 2)) = Some []"
    by (simp_all add: chain_nodes_def fmlookup_of_list)
  have c: "\<exists>st. buildAnimationSteps rnd numPortraits (0, 0) (2, 2) chain_table = Some (Inr st)
       \<and> steps_nodes st = [[(0, 0)], [(1, 1)], [(2, 2)]]
       \<and> steps_paths st = [[], [((0, 0), (1, 1))], [((1, 1), (2, 2))]]" for rnd numPortraits
    unfolding buildAnimationSteps_def chain_nodesFromTransitions
    by (simp add: staging_eval chain_nodes_def fmlookup_of_list key_def)
  from chain_nodesFromTransitions a b c show ?thesis by blast
qed

section \<open>canReachEnd\<close>

lemma route_suffix: "route tr (xs @ y # ys) \<Longrightarrow> route tr (y # ys)"
proof (induction xs)
  case Nil
  then show ?case by simp
next
  case (Cons x xs)
  then show ?case by (cases xs) auto
qed

lemma reaches_refl: "reaches tr e e h"
  unfolding reaches_def by (rule exI[of _ "[]"]) simp

lemma reaches_step:
  assumes "neighbour tr s p" "p \<notin> set h" "reaches tr p e (h @ [s])"
  shows "reaches tr s e h"
proof -
  from assms(3) obtain ks where ks: "route tr (p # ks)" "last (p # ks) = e"
    "set ks \<inter> set (h @ [s]) = {}" unfolding reaches_def by blast
  have "route tr (s # p # ks)" using assms(1) ks(1) by simp
  moreover have "last (s # p # ks) = e" using ks(2) by simp
  moreover have "set (p # ks) \<inter> set h = {}" using assms(2) ks(3) by auto
  ultimately show ?thesis unfolding reaches_def by blast
qed

lemma reaches_first_step:
  assumes "reaches tr s e h" "s \<noteq> e"
  shows "\<exists>p. neighbour tr s p \<and> p \<notin> set (h @ [s]) \<and> reaches tr p e (h @ [s])"
proof -
  from assms(1) obtain ks where ks: "route tr (s # ks)" "last (s # ks) = e"
    "set ks \<inter> set h = {}" unfolding reaches_def by blast
  have "s \<in> set (s # ks)" by simp
  then obtain ys zs where split: "s # ks = ys @ s # zs" "s \<notin> set zs"
    by (meson split_list_last)
  have "zs \<noteq> []"
  proof
    assume "zs = []"
    with split(1) have "last (s # ks) = s" by simp
    with ks(2) assms(2) show False by simp
  qed
  then obtain p ks' where zs: "zs = p # ks'" by (cases zs) auto
  have r: "route tr (s # p # ks')" using route_suffix[of tr ys s zs] ks(1) split(1) zs by simp
  have sub: "set zs \<subseteq> set ks"
  proof
    fix z assume z: "z \<in> set zs"
    then have "z \<in> set (s # ks)" using split(1) by (metis Un_iff list.set_intros(2) set_append)
    with z split(2) show "z \<in> set ks" by auto
  qed
  have l: "last (p # ks') = e" using ks(2) split(1) zs by simp
  have "neighbour tr s p" using r by simp
  moreover have "p \<notin> set (h @ [s])" using sub ks(3) split(2) zs by auto
  moreover have "reaches tr p e (h @ [s])"
    unfolding reaches_def using r l sub ks(3) split(2) zs by (intro exI[of _ ks']) auto
  ultimately show ?thesis by blast
qed

lemma canReachEnd_sound_complete:
  "closed_table tr \<Longrightarrow> s \<in> fmdom' tr \<Longrightarrow>
     \<exists>b h'. canReachEnd s e tr h = Inr (b, h') \<and> (b \<longleftrightarrow> reaches tr s e h) \<and> (\<not> b \<longrightarrow> h' = h)"
  "closed_table tr \<Longrightarrow> \<forall>p \<in> set ps. key p \<in> fmdom' tr \<Longrightarrow>
     \<exists>b h'. canReachEnd_loop ps e tr h = Inr (b, h')
       \<and> (b \<longleftrightarrow> (\<exists>p \<in> set ps. key p \<notin> set h \<and> reaches tr (key p) e h))
       \<and> (\<not> b \<longrightarrow> h' = butlast h)"
proof (induction s e tr h and ps e tr h rule: canReachEnd_canReachEnd_loop.induct)
  case (1 startKey endKey transitions history)
  show ?case
  proof (cases "startKey = endKey")
    case True
    then show ?thesis by (auto simp: reaches_refl)
  next
    case False
    from 1(3) obtain ps where ps: "fmlookup transitions startKey = Some ps"
      by (auto simp: fmdom'_alt_def fmdom.rep_eq dom_def) 
    with 1(2) have dom: "\<forall>p \<in> set ps. key p \<in> fmdom' transitions"
      unfolding closed_table_def by blast
    from 1(1)[OF False ps 1(2) dom] obtain b h' where
      r: "canReachEnd_loop ps endKey transitions (history @ [startKey]) = Inr (b, h')"
      and b: "b \<longleftrightarrow> (\<exists>p \<in> set ps. key p \<notin> set (history @ [startKey])
                 \<and> reaches transitions (key p) endKey (history @ [startKey]))"
      and h': "\<not> b \<longrightarrow> h' = butlast (history @ [startKey])" by blast
    have nb: "neighbour transitions startKey k \<longleftrightarrow> k \<in> key ` set ps" for k
      by (simp add: neighbour_def ps)
    have "b \<longleftrightarrow> reaches transitions startKey endKey history"
    proof
      assume b
      with b obtain p where "p \<in> set ps" "key p \<notin> set (history @ [startKey])"
        "reaches transitions (key p) endKey (history @ [startKey])" by blast
      then show "reaches transitions startKey endKey history"
        using reaches_step[of transitions startKey "key p" history endKey] nb by auto
    next
      assume "reaches transitions startKey endKey history"
      from reaches_first_step[OF this False] nb b show b by auto
    qed
    with r h' False ps show ?thesis by simp
  qed
next
  case (2 endKey transitions history)
  then show ?case by auto
next
  case (3 p ps endKey transitions history)
  from 3(5) have kp: "key p \<in> fmdom' transitions"
    and rest: "\<forall>p \<in> set ps. key p \<in> fmdom' transitions" by auto
  show ?case
  proof (cases "key p \<in> set history")
    case True
    from 3(3)[OF _ 3(4) rest] True show ?thesis by auto
  next
    case False
    from 3(1)[OF False 3(4) kp] obtain b1 h1 where
      r1: "canReachEnd (key p) endKey transitions history = Inr (b1, h1)"
      and b1: "b1 \<longleftrightarrow> reaches transitions (key p) endKey history"
      and h1: "\<not> b1 \<longrightarrow> h1 = history" by blast
    show ?thesis
    proof (cases b1)
      case True
      with r1 b1 False show ?thesis by auto
    next
      case nb1: False
      with h1 have eq: "h1 = history" by simp
      from 3(2)[OF False r1 refl _ 3(4) rest] nb1 eq obtain b h' where
        "canReachEnd_loop ps endKey transitions history = Inr (b, h')"
        "b \<longleftrightarrow> (\<exists>p \<in> set ps. key p \<notin> set history \<and> reaches transitions (key p) endKey history)"
        "\<not> b \<longrightarrow> h' = butlast history" by auto
      with r1 nb1 eq b1 False show ?thesis by auto
    qed
  qed
qed


text \<open>
  Claim C5, as stated, at the start key \<open>(0,0)\<close>, the end key \<open>(0,0)\<close> and the history
  \<open>[(0,0)]\<close>: the call returns true at once, and no route from the start key avoids
  the history, since the start key is in it.
\<close>

theorem canReachEnd_start_in_history:
  "canReachEnd (0, 0) (0, 0) (fmupd (0, 0) [] fmempty) [(0, 0)] = Inr (True, [(0, 0)])
   \<and> \<not> (\<exists>ks. route (fmupd (0, 0) [] fmempty) ks \<and> hd ks = (0, 0) \<and> last ks = (0, 0)
              \<and> set ks \<inter> set [(0, 0)] = {})"
proof -
  have "\<not> (\<exists>ks. route (fmupd (0, 0) [] fmempty) ks \<and> hd ks = (0, 0) \<and> last ks = (0, 0)
              \<and> set ks \<inter> set [(0::int, 0::int)] = {})"
  proof
    assume "\<exists>ks. route (fmupd (0, 0) [] fmempty) ks \<and> hd ks = (0, 0) \<and> last ks = (0, 0)
              \<and> set ks \<inter> set [(0::int, 0::int)] = {}"
    then obtain ks where ks: "route (fmupd (0, 0) [] fmempty) ks" "hd ks = (0, 0)"
      "set ks \<inter> set [(0::int, 0::int)] = {}" by blast
    from ks(1) have "ks \<noteq> []" by auto
    with ks(2) have "(0, 0) \<in> set ks" by (metis hd_in_set)
    with ks(3) show False by simp
  qed
  then show ?thesis by simp
qed

text \<open>
  Claim C5, amended. In a closed table, from a start key that has an entry, \<open>canReachEnd\<close>
  returns, and it returns true exactly when some route leads from the start key to the
  end key with none of its keys after the start key in the initial history; when the
  start key is not in the history, that is a route that avoids the history altogether.
  When it returns false, the history it hands back is the initial one.
\<close>

theorem canReachEnd_reaches:
  assumes "closed_table tr" and "s \<in> fmdom' tr"
  shows "\<exists>b h'. canReachEnd s e tr h = Inr (b, h')
           \<and> (b \<longleftrightarrow> (\<exists>ks. route tr (s # ks) \<and> last (s # ks) = e \<and> set ks \<inter> set h = {}))
           \<and> (s \<notin> set h \<longrightarrow>
                (b \<longleftrightarrow> (\<exists>ks. route tr (s # ks) \<and> last (s # ks) = e
                              \<and> set (s # ks) \<inter> set h = {})))
           \<and> (\<not> b \<longrightarrow> h' = h)"
proof -
  from canReachEnd_sound_complete(1)[OF assms, of e h] obtain b h' where
    r: "canReachEnd s e tr h = Inr (b, h')" "b \<longleftrightarrow> reaches tr s e h" "\<not> b \<longrightarrow> h' = h"
    by blast
  have "s \<notin> set h \<Longrightarrow>
          (\<exists>ks. route tr (s # ks) \<and> last (s # ks) = e \<and> set (s # ks) \<inter> set h = {})
          \<longleftrightarrow> (\<exists>ks. route tr (s # ks) \<and> last (s # ks) = e \<and> set ks \<inter> set h = {})"
    by auto
  with r show ?thesis unfolding reaches_def by blast
qed

theorem canReachEnd_reaches_witness:
  "\<exists>b h'. canReachEnd (1, 1) (2, 2) chain_table [(0, 0)] = Inr (b, h')
           \<and> (b \<longleftrightarrow> (\<exists>ks. route chain_table ((1, 1) # ks) \<and> last ((1, 1) # ks) = (2, 2)
                         \<and> set ks \<inter> set [(0, 0)] = {}))
           \<and> ((1, 1) \<notin> set [(0::int, 0::int)] \<longrightarrow>
                (b \<longleftrightarrow> (\<exists>ks. route chain_table ((1, 1) # ks) \<and> last ((1, 1) # ks) = (2, 2)
                              \<and> set ((1, 1) # ks) \<inter> set [(0, 0)] = {})))
           \<and> (\<not> b \<longrightarrow> h' = [(0, 0)])"
proof -
  have c: "closed_table chain_table"
    by (auto simp: closed_table_def chain_table_def key_def split: if_splits)
  have d: "(1, 1) \<in> fmdom' chain_table"
    by (simp add: chain_table_def)
  from canReachEnd_reaches[OF c d] show ?thesis .
qed

section \<open>Staging\<close>

lemma keeps_refl: "keeps st st"
  by (simp add: keeps_def same_shape_def)

lemma keeps_trans: "keeps a b \<Longrightarrow> keeps b c \<Longrightarrow> keeps a c"
  by (auto simp: keeps_def same_shape_def)

lemma keeps_update:
  assumes l: "fmlookup (mapNodes st) childKey = Some childNode"
    and c: "children n = children childNode" and b: "isBoss n = isBoss childNode"
    and d: "dsf_ok (mapNodes st) \<Longrightarrow> distSinceFight childNode \<noteq> 0 \<and> distSinceFight n \<ge> - 1"
    and s: "steps_nodes st1 = steps_nodes st" "steps_paths st1 = steps_paths st"
  shows "keeps st (st1\<lparr>mapNodes := fmupd childKey n (mapNodes st), draws := dr\<rparr>)"
proof -
  let ?m = "fmupd childKey n (mapNodes st)"
  have 1: "fmdom' ?m = fmdom' (mapNodes st)"
    using l by (auto simp: fmdom'_alt_def fmdom.rep_eq dom_def) 
  have 2: "kids ?m k = kids (mapNodes st) k" for k
    using l c by (auto simp: kids_def)
  have 3: "bosses ?m = bosses (mapNodes st)"
    using l b unfolding bosses_def by (auto split: if_splits)
  have 4: "dsf_ok ?m" if "dsf_ok (mapNodes st)"
    using d[OF that] that unfolding dsf_ok_def by (auto split: if_splits)
  have 5: "fights (mapNodes st) \<subseteq> fights ?m" if "dsf_ok (mapNodes st)"
    using d[OF that] l unfolding fights_def by (auto split: if_splits)
  show ?thesis
    unfolding keeps_def same_shape_def using 1 2 3 4 5 s by simp
qed

lemma keeps_paths: "keeps st (st\<lparr>currentPaths := ps\<rparr>)"
  by (simp add: keeps_def same_shape_def)

lemma visitChild_effect:
  assumes "currentKey \<in> fmdom' (mapNodes st)" and "childKey \<in> fmdom' (mapNodes st)"
  shows "\<exists>st'. visitChild rnd np currentKey childKey (st, cn)
              = Inr (st', new_kid (set (concat (steps_nodes st))) cn childKey)
           \<and> currentPaths st' = new_path (concat (steps_paths st)) (currentPaths st) (currentKey, childKey)
           \<and> keeps st st'"
proof -
  from assms obtain currentNode childNode where
    l: "fmlookup (mapNodes st) currentKey = Some currentNode"
       "fmlookup (mapNodes st) childKey = Some childNode"
    by (auto simp: fmdom'_alt_def fmdom.rep_eq dom_def)
  define st1 where "st1 = st\<lparr>currentPaths :=
      new_path (concat (steps_paths st)) (currentPaths st) (currentKey, childKey)\<rparr>"
  have st1: "steps_nodes st1 = steps_nodes st" "steps_paths st1 = steps_paths st"
    "currentPaths st1 = new_path (concat (steps_paths st)) (currentPaths st) (currentKey, childKey)"
    "mapNodes st1 = mapNodes st" "draws st1 = draws st"
    by (simp_all add: st1_def)
  have s1: "keeps st st1" unfolding st1_def by (rule keeps_paths)
  have c: "dsf_ok (mapNodes st) \<Longrightarrow> distSinceFight currentNode \<ge> - 1"
    using l(1) unfolding dsf_ok_def by blast
  let ?cond = "distSinceFight childNode = - 1
      \<or> distSinceFight childNode > distSinceFight currentNode + 1"
  let ?fight = "rnd (draws st) < fightChance (distSinceFight currentNode)"
  have eq: "visitChild rnd np currentKey childKey (st, cn) =
      Inr (if ?cond then
             (if ?fight then st1\<lparr>mapNodes := fmupd childKey
                 (childNode\<lparr>distSinceFight := 0,
                    portrait := Some (getPortrait np (rnd (draws st + 1)))\<rparr>) (mapNodes st),
                 draws := draws st + 2\<rparr>
              else st1\<lparr>mapNodes := fmupd childKey
                 (childNode\<lparr>distSinceFight := max (distSinceFight currentNode + 1) 1\<rparr>)
                 (mapNodes st), draws := draws st + 1\<rparr>)
           else st1,
           new_kid (set (concat (steps_nodes st))) cn childKey)"
    using l by (simp add: visitChild_def Let_def new_kid_def new_path_def st1_def)
  have a: "keeps st (st1\<lparr>mapNodes := fmupd childKey
                 (childNode\<lparr>distSinceFight := 0,
                    portrait := Some (getPortrait np (rnd (draws st + 1)))\<rparr>) (mapNodes st),
                 draws := draws st + 2\<rparr>)" if ?cond
    using that c by (intro keeps_update[OF l(2)] st1) auto
  have b: "keeps st (st1\<lparr>mapNodes := fmupd childKey
                 (childNode\<lparr>distSinceFight := max (distSinceFight currentNode + 1) 1\<rparr>)
                 (mapNodes st), draws := draws st + 1\<rparr>)" if ?cond
    using that c by (intro keeps_update[OF l(2)] st1) auto
  show ?thesis
    unfolding eq using a b s1 st1(3) by (cases ?cond; cases ?fight) simp_all
qed

lemma in_fmdom'_lookup: "k \<in> fmdom' m \<longleftrightarrow> (\<exists>n. fmlookup m k = Some n)"
  by (auto simp: fmdom'_alt_def fmdom.rep_eq dom_def)

lemma closed_nodes_kids: "closed_nodes m \<longleftrightarrow> (\<forall>k. set (kids m k) \<subseteq> fmdom' m)"
proof
  assume c: "closed_nodes m"
  show "\<forall>k. set (kids m k) \<subseteq> fmdom' m"
  proof
    fix k
    show "set (kids m k) \<subseteq> fmdom' m"
    proof (cases "fmlookup m k")
      case None
      then show ?thesis by (simp add: kids_def)
    next
      case (Some n)
      with c have "set (children n) \<subseteq> fmdom' m" unfolding closed_nodes_def by blast
      with Some show ?thesis by (simp add: kids_def)
    qed
  qed
next
  assume a: "\<forall>k. set (kids m k) \<subseteq> fmdom' m"
  show "closed_nodes m"
    unfolding closed_nodes_def
  proof (intro allI impI)
    fix k n assume "fmlookup m k = Some n"
    then have "kids m k = children n" by (simp add: kids_def)
    with a show "set (children n) \<subseteq> fmdom' m" by metis
  qed
qed

lemma closed_nodes_same_shape: "same_shape m' m \<Longrightarrow> closed_nodes m \<Longrightarrow> closed_nodes m'"
  by (simp add: closed_nodes_kids same_shape_def)

lemma children_loop:
  assumes "currentKey \<in> fmdom' (mapNodes st)" and "set cs \<subseteq> fmdom' (mapNodes st)"
  shows "\<exists>st'. for_each (visitChild rnd np currentKey) cs (st, cn)
              = Inr (st', fold (\<lambda>c cn. new_kid (set (concat (steps_nodes st))) cn c) cs cn)
           \<and> currentPaths st'
              = fold (\<lambda>c ps. new_path (concat (steps_paths st)) ps (currentKey, c)) cs (currentPaths st)
           \<and> keeps st st'"
  using assms
proof (induction cs arbitrary: st cn)
  case Nil
  then show ?case by (simp add: keeps_refl)
next
  case (Cons c cs)
  from Cons.prems have c: "c \<in> fmdom' (mapNodes st)" by simp
  from visitChild_effect[OF Cons.prems(1) c, of rnd np cn] obtain st1 where
    v: "visitChild rnd np currentKey c (st, cn)
          = Inr (st1, new_kid (set (concat (steps_nodes st))) cn c)"
    and p: "currentPaths st1 = new_path (concat (steps_paths st)) (currentPaths st) (currentKey, c)"
    and s: "keeps st st1" by blast
  from s have eqs: "steps_nodes st1 = steps_nodes st" "steps_paths st1 = steps_paths st"
    "fmdom' (mapNodes st1) = fmdom' (mapNodes st)"
    by (simp_all add: keeps_def same_shape_def)
  from Cons.prems eqs have "currentKey \<in> fmdom' (mapNodes st1)" "set cs \<subseteq> fmdom' (mapNodes st1)"
    by auto
  from Cons.IH[OF this, of "new_kid (set (concat (steps_nodes st))) cn c"] obtain st' where
    "for_each (visitChild rnd np currentKey) cs (st1, new_kid (set (concat (steps_nodes st))) cn c)
       = Inr (st', fold (\<lambda>c cn. new_kid (set (concat (steps_nodes st1))) cn c) cs
                     (new_kid (set (concat (steps_nodes st))) cn c))"
    "currentPaths st'
       = fold (\<lambda>c ps. new_path (concat (steps_paths st1)) ps (currentKey, c)) cs (currentPaths st1)"
    "keeps st1 st'" by blast
  with v p s eqs show ?case by (auto intro: keeps_trans)
qed

lemma visitNode_effect:
  assumes "currentKey \<in> fmdom' (mapNodes st)" and "closed_nodes (mapNodes st)"
  shows "\<exists>st'. visitNode rnd np currentKey (st, acc)
              = Inr (st', acc @ [fold (\<lambda>c cn. new_kid (set (concat (steps_nodes st))) cn c)
                                   (kids (mapNodes st) currentKey) []])
           \<and> currentPaths st'
              = fold (\<lambda>c ps. new_path (concat (steps_paths st)) ps (currentKey, c))
                  (kids (mapNodes st) currentKey) (currentPaths st)
           \<and> keeps st st'"
proof -
  from assms(1) obtain n where n: "fmlookup (mapNodes st) currentKey = Some n"
    by (auto simp: in_fmdom'_lookup)
  then have k: "kids (mapNodes st) currentKey = children n" by (simp add: kids_def)
  from assms(2) n have "set (children n) \<subseteq> fmdom' (mapNodes st)"
    unfolding closed_nodes_def by blast
  from children_loop[OF assms(1) this, of rnd np "[]"] n k show ?thesis
    by (auto simp: visitNode_def)
qed

lemma nodes_loop:
  assumes "set curs \<subseteq> fmdom' (mapNodes st)" and "closed_nodes (mapNodes st)"
  shows "\<exists>st'. for_each (visitNode rnd np) curs (st, acc)
              = Inr (st', acc @ map (\<lambda>cur. fold (\<lambda>c cn. new_kid (set (concat (steps_nodes st))) cn c)
                                            (kids (mapNodes st) cur) []) curs)
           \<and> currentPaths st'
              = fold (\<lambda>e ps. new_path (concat (steps_paths st)) ps e)
                  (concat (map (\<lambda>cur. map (\<lambda>c. (cur, c)) (kids (mapNodes st) cur)) curs))
                  (currentPaths st)
           \<and> keeps st st'"
  using assms
proof (induction curs arbitrary: st acc)
  case Nil
  then show ?case by (simp add: keeps_refl)
next
  case (Cons cur curs)
  from Cons.prems have c: "cur \<in> fmdom' (mapNodes st)" by simp
  from visitNode_effect[OF c Cons.prems(2), of rnd np acc] obtain st1 where
    v: "visitNode rnd np cur (st, acc)
          = Inr (st1, acc @ [fold (\<lambda>c cn. new_kid (set (concat (steps_nodes st))) cn c)
                               (kids (mapNodes st) cur) []])"
    and p: "currentPaths st1
              = fold (\<lambda>c ps. new_path (concat (steps_paths st)) ps (cur, c))
                  (kids (mapNodes st) cur) (currentPaths st)"
    and s: "keeps st st1" by blast
  from s have eqs: "steps_nodes st1 = steps_nodes st" "steps_paths st1 = steps_paths st"
    "fmdom' (mapNodes st1) = fmdom' (mapNodes st)" "kids (mapNodes st1) = kids (mapNodes st)"
    and sh: "same_shape (mapNodes st1) (mapNodes st)"
    by (auto simp: keeps_def same_shape_def)
  from Cons.prems eqs closed_nodes_same_shape[OF sh]
  have "set curs \<subseteq> fmdom' (mapNodes st1)" "closed_nodes (mapNodes st1)" by auto
  from Cons.IH[OF this, of "acc @ [fold (\<lambda>c cn. new_kid (set (concat (steps_nodes st))) cn c)
                               (kids (mapNodes st) cur) []]"]
  obtain st' where
    "for_each (visitNode rnd np) curs (st1, acc @ [fold (\<lambda>c cn. new_kid (set (concat (steps_nodes st))) cn c)
                               (kids (mapNodes st) cur) []])
       = Inr (st', (acc @ [fold (\<lambda>c cn. new_kid (set (concat (steps_nodes st))) cn c)
                               (kids (mapNodes st) cur) []])
                   @ map (\<lambda>cur. fold (\<lambda>c cn. new_kid (set (concat (steps_nodes st1))) cn c)
                                            (kids (mapNodes st1) cur) []) curs)"
    "currentPaths st'
       = fold (\<lambda>e ps. new_path (concat (steps_paths st1)) ps e)
           (concat (map (\<lambda>cur. map (\<lambda>c. (cur, c)) (kids (mapNodes st1) cur)) curs))
           (currentPaths st1)"
    "keeps st1 st'" by blast
  with v p s eqs show ?case by (auto simp: fold_map comp_def intro: keeps_trans)
qed

lemma evolves_refl: "evolves m m"
  by (simp add: evolves_def same_shape_def)

lemma evolves_trans: "evolves a b \<Longrightarrow> evolves b c \<Longrightarrow> evolves a c"
  by (auto simp: evolves_def same_shape_def)

lemma sweep_effect:
  assumes "set curs \<subseteq> fmdom' (mapNodes st)" and "closed_nodes (mapNodes st)"
  shows "\<exists>st'. sweep rnd np (st, curs)
              = Inr (st', next_nodes (kids (mapNodes st))
                            (set (concat (steps_nodes st)) \<union> set curs) curs)
           \<and> steps_nodes st' = steps_nodes st @ [curs]
           \<and> steps_paths st' = steps_paths st @ [currentPaths st]
           \<and> currentPaths st'
              = next_paths (kids (mapNodes st)) (concat (steps_paths st) @ currentPaths st) curs
           \<and> evolves (mapNodes st) (mapNodes st')"
proof -
  define st1 where "st1 = st\<lparr>steps_nodes := steps_nodes st @ [curs],
                    steps_paths := steps_paths st @ [currentPaths st],
                    currentPaths := []\<rparr>"
  have st1: "mapNodes st1 = mapNodes st" "steps_nodes st1 = steps_nodes st @ [curs]"
    "steps_paths st1 = steps_paths st @ [currentPaths st]" "currentPaths st1 = []"
    by (simp_all add: st1_def)
  from assms st1 have "set curs \<subseteq> fmdom' (mapNodes st1)" "closed_nodes (mapNodes st1)" by simp_all
  from nodes_loop[OF this, of rnd np "[]"] obtain st' where
    r: "for_each (visitNode rnd np) curs (st1, [])
          = Inr (st', [] @ map (\<lambda>cur. fold (\<lambda>c cn. new_kid (set (concat (steps_nodes st1))) cn c)
                                            (kids (mapNodes st1) cur) []) curs)"
    and p: "currentPaths st'
              = fold (\<lambda>e ps. new_path (concat (steps_paths st1)) ps e)
                  (concat (map (\<lambda>cur. map (\<lambda>c. (cur, c)) (kids (mapNodes st1) cur)) curs))
                  (currentPaths st1)"
    and k: "keeps st1 st'" by blast
  have "sweep rnd np (st, curs) = Inr (st', next_nodes (kids (mapNodes st))
                            (set (concat (steps_nodes st)) \<union> set curs) curs)"
    using r st1 by (simp add: sweep_def Let_def st1_def[symmetric] next_nodes_def)
  moreover have "currentPaths st'
              = next_paths (kids (mapNodes st)) (concat (steps_paths st) @ currentPaths st) curs"
    using p st1 by (simp add: next_paths_def)
  moreover have "evolves (mapNodes st) (mapNodes st')"
    using k st1 by (simp add: keeps_def evolves_def)
  moreover have "steps_nodes st' = steps_nodes st @ [curs]"
    "steps_paths st' = steps_paths st @ [currentPaths st]"
    using k st1 by (simp_all add: keeps_def)
  ultimately show ?thesis by blast
qed

lemma set_fold_new_kid:
  "set (fold (\<lambda>c cn. new_kid S cn c) cs cn) = set cn \<union> (set cs - S)"
  by (induction cs arbitrary: cn) (auto simp: new_kid_def)

lemma set_unique_loop: "set (unique_loop acc xs) = set acc \<union> set xs"
  by (induction acc xs rule: unique_loop.induct) auto

lemma distinct_unique_loop: "distinct acc \<Longrightarrow> distinct (unique_loop acc xs)"
  by (induction acc xs rule: unique_loop.induct) auto

lemma set_next_nodes: "set (next_nodes K S curs) = (\<Union>cur \<in> set curs. set (K cur)) - S"
  by (auto simp: next_nodes_def unique_def set_unique_loop set_fold_new_kid)

lemma distinct_next_nodes: "distinct (next_nodes K S curs)"
  by (simp add: next_nodes_def unique_def distinct_unique_loop)

lemma next_nodes_Nil: "next_nodes K S [] = []"
  by (simp add: next_nodes_def unique_def)

lemma next_paths_Nil: "next_paths K D [] = []"
  by (simp add: next_paths_def)

lemma sameEdge_eq: "sameEdge p q \<longleftrightarrow> p = q \<or> p = (snd q, fst q)"
  by (cases p; cases q) (auto simp: sameEdge_def)

lemma sameEdge_sym: "sameEdge p q \<Longrightarrow> sameEdge q p"
  by (auto simp: sameEdge_def)

lemma sameEdge_trans: "sameEdge p q \<Longrightarrow> sameEdge q r \<Longrightarrow> sameEdge p r"
  by (auto simp: sameEdge_def)

lemma containsPath_iff: "containsPath ps p \<longleftrightarrow> (\<exists>q \<in> set ps. sameEdge q p)"
  by (auto simp: containsPath_def sameEdge_def filter_empty_conv)

lemma containsPath_append: "containsPath (xs @ ys) p \<longleftrightarrow> containsPath xs p \<or> containsPath ys p"
  by (auto simp: containsPath_iff)

lemma edistinct_snoc: "edistinct (ps @ [p]) \<longleftrightarrow> edistinct ps \<and> \<not> containsPath ps p"
  by (induction ps) (auto simp: containsPath_iff dest: sameEdge_sym)

lemma edistinct_count:
  "edistinct ps \<Longrightarrow> containsPath ps e \<Longrightarrow> length (filter (\<lambda>p. sameEdge p e) ps) = 1"
proof (induction ps)
  case Nil
  then show ?case by (simp add: containsPath_iff)
next
  case (Cons p ps)
  show ?case
  proof (cases "sameEdge p e")
    case True
    have "\<not> containsPath ps e"
    proof
      assume "containsPath ps e"
      then obtain q where "q \<in> set ps" "sameEdge q e" by (auto simp: containsPath_iff)
      with True have "q \<in> set ps" "sameEdge q p" by (auto intro: sameEdge_trans sameEdge_sym)
      with Cons.prems(1) show False by (auto simp: containsPath_iff)
    qed
    then have "filter (\<lambda>p. sameEdge p e) ps = []"
      by (auto simp: containsPath_iff filter_empty_conv)
    with True show ?thesis by simp
  next
    case False
    with Cons show ?thesis by (auto simp: containsPath_iff)
  qed
qed

lemma set_new_path: "set ps \<subseteq> set (new_path D ps e)" "set (new_path D ps e) \<subseteq> insert e (set ps)"
  by (auto simp: new_path_def)

lemma fold_new_path_mono: "set ps \<subseteq> set (fold (\<lambda>e ps. new_path D ps e) es ps)"
proof (induction es arbitrary: ps)
  case Nil
  then show ?case by simp
next
  case (Cons e es)
  have "set ps \<subseteq> set (new_path D ps e)" by (rule set_new_path)
  also have "\<dots> \<subseteq> set (fold (\<lambda>e ps. new_path D ps e) es (new_path D ps e))" by (rule Cons.IH)
  finally show ?case by simp
qed

lemma fold_new_path_subset: "set (fold (\<lambda>e ps. new_path D ps e) es ps) \<subseteq> set ps \<union> set es"
proof (induction es arbitrary: ps)
  case Nil
  then show ?case by simp
next
  case (Cons e es)
  have "set (fold (\<lambda>e ps. new_path D ps e) es (new_path D ps e))
          \<subseteq> set (new_path D ps e) \<union> set es" by (rule Cons.IH)
  also have "\<dots> \<subseteq> insert e (set ps) \<union> set es" using set_new_path(2)[of D ps e] by blast
  finally show ?case by auto
qed

lemma fold_new_path_covers:
  "\<forall>e \<in> set es. containsPath D e \<or> containsPath (fold (\<lambda>e ps. new_path D ps e) es ps) e"
proof (induction es arbitrary: ps)
  case Nil
  then show ?case by simp
next
  case (Cons e es)
  have "containsPath D e \<or> containsPath (new_path D ps e) e"
    by (auto simp: new_path_def containsPath_iff sameEdge_def)
  then have "containsPath D e \<or> containsPath (fold (\<lambda>e ps. new_path D ps e) es (new_path D ps e)) e"
    using fold_new_path_mono[of "new_path D ps e" D es] by (auto simp: containsPath_iff)
  with Cons.IH[of "new_path D ps e"] show ?case by simp
qed

lemma fold_new_path_edistinct:
  "edistinct (D @ ps) \<Longrightarrow> edistinct (D @ fold (\<lambda>e ps. new_path D ps e) es ps)"
proof (induction es arbitrary: ps)
  case Nil
  then show ?case by simp
next
  case (Cons e es)
  have "edistinct (D @ new_path D ps e)"
    using Cons.prems edistinct_snoc[of "D @ ps" e]
    by (auto simp: new_path_def containsPath_append)
  from Cons.IH[OF this] show ?case by simp
qed

lemma reachable_step: "u \<in> reachable m s \<Longrightarrow> v \<in> set (kids m u) \<Longrightarrow> v \<in> reachable m s"
  unfolding reachable_def by (auto intro: rtrancl_into_rtrancl)

lemma reachable_subset_dom:
  assumes "closed_nodes m" "s \<in> fmdom' m"
  shows "reachable m s \<subseteq> fmdom' m"
proof
  fix k assume "k \<in> reachable m s"
  then have "(s, k) \<in> {(u, v). v \<in> set (kids m u)}\<^sup>*" by (simp add: reachable_def)
  then show "k \<in> fmdom' m"
  proof (induction rule: rtrancl_induct)
    case base
    then show ?case by (rule assms(2))
  next
    case (step y z)
    then have "z \<in> set (kids m y)" by simp
    with assms(1) show ?case unfolding closed_nodes_kids by blast
  qed
qed

lemma sweep_inv:
  assumes cl: "closed_nodes nodes0" and sd: "start \<in> fmdom' nodes0"
    and inv: "stage_inv nodes0 start (st, curs)"
  shows "\<exists>st' curs'. sweep rnd np (st, curs) = Inr (st', curs')
           \<and> stage_inv nodes0 start (st', curs')
           \<and> evolves (mapNodes st) (mapNodes st')
           \<and> set curs' \<subseteq> fmdom' nodes0 - (set (concat (steps_nodes st)) \<union> set curs)
           \<and> steps_nodes st' = steps_nodes st @ [curs]
           \<and> (curs = [] \<longrightarrow> curs' = [] \<and> currentPaths st' = [])"
proof -
  define B where "B = steps_nodes st"
  define S where "S = set (concat B)"
  define E where "E = concat (steps_paths st) @ currentPaths st"
  define K where "K = kids nodes0"
  from inv have sh: "same_shape (mapNodes st) nodes0"
    and i1: "distinct (concat B @ curs)"
    and i2: "S \<union> set curs \<subseteq> reachable nodes0 start"
    and i3: "start \<in> S \<union> set curs"
    and i4: "\<forall>u \<in> S. set (K u) \<subseteq> S \<union> set curs"
    and i5: "edistinct E"
    and i6: "\<forall>e \<in> set E. fst e \<in> S \<and> snd e \<in> set (K (fst e))"
    and i7: "\<forall>u \<in> S. \<forall>v \<in> set (K u). containsPath E (u, v)"
    and i8: "parent_ok K (curs # rev B)"
    and i9: "closure_ok K (curs # rev B)"
    and i10: "last (curs # rev B) = [start]"
    unfolding stage_inv_def B_def S_def E_def K_def by simp_all
  from sh have dom: "fmdom' (mapNodes st) = fmdom' nodes0" and kk: "kids (mapNodes st) = K"
    by (auto simp: same_shape_def K_def)
  have rd: "reachable nodes0 start \<subseteq> fmdom' nodes0" by (rule reachable_subset_dom[OF cl sd])
  have c1: "set curs \<subseteq> fmdom' (mapNodes st)" using i2 rd dom by auto
  have c2: "closed_nodes (mapNodes st)" by (rule closed_nodes_same_shape[OF sh cl])
  define curs' where "curs' = next_nodes K (S \<union> set curs) curs"
  define P' where "P' = next_paths K E curs"
  from sweep_effect[OF c1 c2, of rnd np] obtain st' where
    sw: "sweep rnd np (st, curs) = Inr (st', curs')"
    and sn: "steps_nodes st' = B @ [curs]"
    and sp: "steps_paths st' = steps_paths st @ [currentPaths st]"
    and cp: "currentPaths st' = P'"
    and ev: "evolves (mapNodes st) (mapNodes st')"
    unfolding kk curs'_def P'_def S_def B_def E_def by blast
  have sc: "set curs' = (\<Union>cur \<in> set curs. set (K cur)) - (S \<union> set curs)"
    unfolding curs'_def by (rule set_next_nodes)
  have dc: "distinct curs'" unfolding curs'_def by (rule distinct_next_nodes)
  have E': "concat (steps_paths st') @ currentPaths st' = E @ P'"
    by (simp add: sp cp E_def)
  have S': "set (concat (steps_nodes st')) = S \<union> set curs" by (simp add: sn S_def)
  let ?edges = "concat (map (\<lambda>cur. map (\<lambda>c. (cur, c)) (K cur)) curs)"
  have P'_sub: "set P' \<subseteq> set ?edges"
    using fold_new_path_subset[of E ?edges "[]"] by (simp add: P'_def next_paths_def)
  have P'_cov: "\<forall>e \<in> set ?edges. containsPath E e \<or> containsPath P' e"
    using fold_new_path_covers[of ?edges E "[]"] by (simp add: P'_def next_paths_def)
  have P'_dist: "edistinct (E @ P')"
    using fold_new_path_edistinct[of E "[]" ?edges] i5 by (simp add: P'_def next_paths_def)
  have j0: "same_shape (mapNodes st') nodes0"
    using ev sh by (auto simp: evolves_def same_shape_def)
  have j1: "distinct (concat (steps_nodes st') @ curs')"
    using i1 dc sc by (auto simp: sn S_def)
  have cr: "set curs' \<subseteq> reachable nodes0 start"
  proof
    fix v assume "v \<in> set curs'"
    with sc obtain cur where "cur \<in> set curs" "v \<in> set (K cur)" by auto
    with i2 show "v \<in> reachable nodes0 start"
      using reachable_step[of cur nodes0 start v] by (auto simp: K_def)
  qed
  have j2: "set (concat (steps_nodes st')) \<union> set curs' \<subseteq> reachable nodes0 start"
    using i2 cr S' by auto
  have j3: "start \<in> set (concat (steps_nodes st')) \<union> set curs'" using i3 S' by auto
  have j4: "\<forall>u \<in> set (concat (steps_nodes st')).
              set (K u) \<subseteq> set (concat (steps_nodes st')) \<union> set curs'"
  proof (intro ballI subsetI)
    fix u v assume u: "u \<in> set (concat (steps_nodes st'))" and v: "v \<in> set (K u)"
    from u S' have "u \<in> S \<or> u \<in> set curs" by auto
    then show "v \<in> set (concat (steps_nodes st')) \<union> set curs'"
    proof
      assume "u \<in> S"
      with i4 v S' show ?thesis by auto
    next
      assume "u \<in> set curs"
      with v sc S' show ?thesis by auto
    qed
  qed
  have j6: "\<forall>e \<in> set (E @ P'). fst e \<in> set (concat (steps_nodes st')) \<and> snd e \<in> set (K (fst e))"
  proof
    fix e assume "e \<in> set (E @ P')"
    then have "e \<in> set E \<or> e \<in> set ?edges" using P'_sub by auto
    then show "fst e \<in> set (concat (steps_nodes st')) \<and> snd e \<in> set (K (fst e))"
    proof
      assume "e \<in> set E"
      with i6 S' show ?thesis by auto
    next
      assume "e \<in> set ?edges"
      with S' show ?thesis by auto
    qed
  qed
  have j7: "\<forall>u \<in> set (concat (steps_nodes st')). \<forall>v \<in> set (K u). containsPath (E @ P') (u, v)"
  proof (intro ballI)
    fix u v assume u: "u \<in> set (concat (steps_nodes st'))" and v: "v \<in> set (K u)"
    from u S' have "u \<in> S \<or> u \<in> set curs" by auto
    then show "containsPath (E @ P') (u, v)"
    proof
      assume "u \<in> S"
      with i7 v show ?thesis by (simp add: containsPath_append)
    next
      assume "u \<in> set curs"
      with v have "(u, v) \<in> set ?edges" by auto
      with P'_cov show ?thesis by (auto simp: containsPath_append)
    qed
  qed
  have rv: "rev (steps_nodes st') = curs # rev B" by (simp add: sn)
  have j8: "parent_ok K (curs' # rev (steps_nodes st'))"
    using i8 sc by (auto simp: rv)
  have j9: "closure_ok K (curs' # rev (steps_nodes st'))"
  proof -
    have "\<forall>u \<in> set curs. set (K u) \<subseteq> set (concat (curs' # curs # rev B))"
      using sc by (auto simp: S_def)
    with i9 show ?thesis by (simp add: rv)
  qed
  have j10: "last (curs' # rev (steps_nodes st')) = [start]"
    using i10 by (simp add: rv)
  have inv': "stage_inv nodes0 start (st', curs')"
    unfolding stage_inv_def
    using j0 j1 j2 j3 j4 P'_dist j6 j7 j8 j9 j10 E' by (simp add: K_def)
  have sub: "set curs' \<subseteq> fmdom' nodes0 - (set (concat (steps_nodes st)) \<union> set curs)"
    using cr rd sc by (auto simp: S_def B_def)
  have emp: "curs = [] \<longrightarrow> curs' = [] \<and> currentPaths st' = []"
    by (auto simp: curs'_def cp P'_def next_nodes_Nil next_paths_Nil)
  from sw inv' ev sub sn emp show ?thesis unfolding B_def by blast
qed

lemma staging_loop_total:
  assumes cl: "closed_nodes nodes0" and sd: "start \<in> fmdom' nodes0"
  shows "stage_inv nodes0 start s \<Longrightarrow>
           \<exists>st'. staging_loop rnd np s = Some (Inr st')
              \<and> stage_inv nodes0 start (st', []) \<and> currentPaths st' = []
              \<and> evolves (mapNodes (fst s)) (mapNodes st')"
proof (induction "stage_measure nodes0 s" arbitrary: s rule: less_induct)
  case less
  obtain st curs where s: "s = (st, curs)" by (cases s)
  show ?case
  proof (cases "curs \<noteq> [] \<or> currentPaths st \<noteq> []")
    case False
    then have "staging_loop rnd np s = Some (Inr st)"
      by (subst staging_loop.simps) (simp add: s)
    with False less.prems s show ?thesis by (auto simp: evolves_refl)
  next
    case True
    from sweep_inv[OF cl sd less.prems[unfolded s], of rnd np] obtain st' curs' where
      sw: "sweep rnd np (st, curs) = Inr (st', curs')"
      and inv': "stage_inv nodes0 start (st', curs')"
      and ev: "evolves (mapNodes st) (mapNodes st')"
      and sub: "set curs' \<subseteq> fmdom' nodes0 - (set (concat (steps_nodes st)) \<union> set curs)"
      and sn: "steps_nodes st' = steps_nodes st @ [curs]"
      and emp: "curs = [] \<longrightarrow> curs' = [] \<and> currentPaths st' = []" by blast
    let ?U = "set (concat (steps_nodes st)) \<union> set curs"
    have U': "set (concat (steps_nodes st')) \<union> set curs' = ?U \<union> set curs'"
      by (simp add: sn)
    have dec: "stage_measure nodes0 (st', curs') < stage_measure nodes0 s"
    proof (cases "curs = []")
      case True
      with emp have e: "curs' = []" "currentPaths st' = []" by simp_all
      from True \<open>curs \<noteq> [] \<or> currentPaths st \<noteq> []\<close> have "currentPaths st \<noteq> []" by simp
      with True e show ?thesis by (simp add: stage_measure_def s sn)
    next
      case False
      show ?thesis
      proof (cases "curs' = []")
        case True
        with False show ?thesis by (simp add: stage_measure_def s sn)
      next
        case ne: False
        then obtain v where v: "v \<in> set curs'" by (cases curs') auto
        with sub have "v \<in> fmdom' nodes0 - ?U" by auto
        moreover have "fmdom' nodes0 - (?U \<union> set curs') \<subseteq> fmdom' nodes0 - ?U - {v}"
          using v by auto
        ultimately have "card (fmdom' nodes0 - (?U \<union> set curs')) < card (fmdom' nodes0 - ?U)"
          by (meson card_Diff1_less card_mono finite_Diff finite_fmdom' le_less_trans)
        then have "card (fmdom' nodes0 - (set (concat (steps_nodes st')) \<union> set curs'))
                     < card (fmdom' nodes0 - ?U)"
          unfolding U' .
        moreover have "fst s = st" "snd s = curs" by (simp_all add: s)
        ultimately show ?thesis unfolding stage_measure_def using False ne by simp
      qed
    qed
    from less.hyps[OF dec inv'] obtain fin where
      f: "staging_loop rnd np (st', curs') = Some (Inr fin)"
      "stage_inv nodes0 start (fin, [])" "currentPaths fin = []"
      "evolves (mapNodes st') (mapNodes fin)" by auto
    have "staging_loop rnd np s = staging_loop rnd np (st', curs')"
      using True sw by (subst staging_loop.simps) (simp add: s)
    with f ev s show ?thesis by (auto intro: evolves_trans)
  qed
qed

lemma dsf_ok_upd: "dsf_ok m \<Longrightarrow> distSinceFight n \<ge> - 1 \<Longrightarrow> dsf_ok (fmupd k n m)"
  unfolding dsf_ok_def by (metis fmupd_lookup option.inject)

lemma bosses_upd:
  "bosses (fmupd k n m) = (if isBoss n then insert k (bosses m) else bosses m - {k})"
proof (rule set_eqI)
  fix x
  show "x \<in> bosses (fmupd k n m) \<longleftrightarrow>
          x \<in> (if isBoss n then insert k (bosses m) else bosses m - {k})"
    by (cases "x = k") (simp_all add: bosses_def)
qed

lemma kids_upd: "kids (fmupd k n m) k' = (if k' = k then children n else kids m k')"
  by (simp add: kids_def)

lemma staging_init_inv:
  assumes cl: "closed_nodes nodes0" and sd: "key start \<in> fmdom' nodes0"
    and ed: "key endp \<in> fmdom' nodes0"
  shows "\<exists>st0. staging_init rnd np nodes0 start endp = Inr (st0, [key start])
           \<and> stage_inv nodes0 (key start) (st0, [key start])
           \<and> (dsf_ok nodes0 \<longrightarrow> dsf_ok (mapNodes st0))
           \<and> key endp \<in> fights (mapNodes st0)
           \<and> bosses (mapNodes st0) = insert (key endp) (bosses nodes0)"
proof -
  from sd obtain startNode where sn: "fmlookup nodes0 (key start) = Some startNode"
    unfolding in_fmdom'_lookup by blast
  define startNode1 where "startNode1 = startNode\<lparr>distSinceFight := 1\<rparr>"
  define nodes1 where "nodes1 = fmupd (key start) startNode1 nodes0"
  have d1: "fmdom' nodes1 = fmdom' nodes0" using sd by (auto simp: nodes1_def)
  with ed have "key endp \<in> fmdom' nodes1" by simp
  then obtain endNode where en: "fmlookup nodes1 (key endp) = Some endNode"
    unfolding in_fmdom'_lookup by blast
  define endNode1 where "endNode1 = endNode\<lparr>distSinceFight := 0, isBoss := True,
                portrait := Some (getPortrait np (rnd 0))\<rparr>"
  define nodes2 where "nodes2 = fmupd (key endp) endNode1 nodes1"
  define st0 where "st0 = \<lparr>mapNodes = nodes2, steps_nodes = [], steps_paths = [],
      currentPaths = [], draws = 1\<rparr>"
  have st0: "mapNodes st0 = nodes2" "steps_nodes st0 = []" "steps_paths st0 = []"
    "currentPaths st0 = []" by (simp_all add: st0_def)
  have r: "staging_init rnd np nodes0 start endp = Inr (st0, [key start])"
    unfolding staging_init_def Let_def sn option.case
      startNode1_def[symmetric] nodes1_def[symmetric] en endNode1_def[symmetric]
      nodes2_def[symmetric] st0_def[symmetric] ..
  have "fmdom' nodes2 = insert (key endp) (fmdom' nodes1)" by (simp add: nodes2_def)
  also have "\<dots> = fmdom' nodes0" unfolding d1 using ed by (rule insert_absorb)
  finally have d2: "fmdom' nodes2 = fmdom' nodes0" .
  have c1: "children startNode1 = children startNode" by (simp add: startNode1_def)
  have c2: "children endNode1 = children endNode" by (simp add: endNode1_def)
  have k1: "kids nodes1 k = kids nodes0 k" for k
    unfolding nodes1_def kids_upd using sn c1 by (simp add: kids_def)
  have ke: "kids nodes1 (key endp) = children endNode" using en by (simp add: kids_def)
  have k2: "kids nodes2 k = kids nodes0 k" for k
    unfolding nodes2_def kids_upd c2 using ke k1 by simp
  have sh: "same_shape nodes2 nodes0" using d2 k2 by (simp add: same_shape_def)
  have "key start \<in> reachable nodes0 (key start)" by (simp add: reachable_def)
  then have inv: "stage_inv nodes0 (key start) (st0, [key start])"
    using sh unfolding stage_inv_def by (simp add: st0)
  have ok: "dsf_ok nodes2" if "dsf_ok nodes0"
  proof -
    have "dsf_ok nodes1" unfolding nodes1_def
      by (rule dsf_ok_upd[OF that]) (simp add: startNode1_def)
    then show ?thesis unfolding nodes2_def
      by (rule dsf_ok_upd) (simp add: endNode1_def)
  qed
  have fi: "key endp \<in> fights nodes2" by (simp add: fights_def nodes2_def endNode1_def)
  have b0: "isBoss startNode1 = isBoss startNode" by (simp add: startNode1_def)
  have b1: "bosses nodes1 = bosses nodes0"
  proof (cases "isBoss startNode")
    case True
    then have "key start \<in> bosses nodes0" using sn by (auto simp: bosses_def)
    with True b0 show ?thesis unfolding nodes1_def bosses_upd by auto
  next
    case False
    then have "key start \<notin> bosses nodes0" using sn by (auto simp: bosses_def)
    with False b0 show ?thesis unfolding nodes1_def bosses_upd by auto
  qed
  have b2: "bosses nodes2 = insert (key endp) (bosses nodes1)"
    unfolding nodes2_def bosses_upd by (simp add: endNode1_def)
  from r inv ok fi b1 b2 st0(1) show ?thesis by auto
qed

lemma staging_total:
  assumes cl: "closed_nodes nodes0" and sd: "key start \<in> fmdom' nodes0"
    and ed: "key endp \<in> fmdom' nodes0"
  shows "\<exists>st. staging rnd np nodes0 start endp = Some (Inr st)
           \<and> stage_inv nodes0 (key start) (st, []) \<and> currentPaths st = []
           \<and> (dsf_ok nodes0 \<longrightarrow> dsf_ok (mapNodes st) \<and> key endp \<in> fights (mapNodes st))
           \<and> bosses (mapNodes st) = insert (key endp) (bosses nodes0)"
proof -
  from staging_init_inv[OF assms, of rnd np] obtain st0 where
    i: "staging_init rnd np nodes0 start endp = Inr (st0, [key start])"
    "stage_inv nodes0 (key start) (st0, [key start])"
    "dsf_ok nodes0 \<longrightarrow> dsf_ok (mapNodes st0)"
    "key endp \<in> fights (mapNodes st0)"
    "bosses (mapNodes st0) = insert (key endp) (bosses nodes0)" by blast
  from staging_loop_total[OF cl sd i(2), of rnd np] obtain st where
    l: "staging_loop rnd np (st0, [key start]) = Some (Inr st)"
    "stage_inv nodes0 (key start) (st, [])" "currentPaths st = []"
    "evolves (mapNodes st0) (mapNodes st)" by auto
  have "staging rnd np nodes0 start endp = Some (Inr st)"
    using i(1) l(1) by (simp add: staging_def)
  moreover have "dsf_ok nodes0 \<longrightarrow> dsf_ok (mapNodes st) \<and> key endp \<in> fights (mapNodes st)"
    using i(3,4) l(4) by (auto simp: evolves_def)
  moreover have "bosses (mapNodes st) = insert (key endp) (bosses nodes0)"
    using i(5) l(4) by (auto simp: evolves_def)
  ultimately show ?thesis using l(2,3) by blast
qed

lemma parent_ok_nth:
  "parent_ok K (rev L) \<Longrightarrow> Suc i < length L \<Longrightarrow> v \<in> set (L ! Suc i)
     \<Longrightarrow> \<exists>u \<in> set (L ! i). v \<in> set (K u)"
proof (induction L arbitrary: i rule: rev_induct)
  case Nil
  then show ?case by simp
next
  case (snoc b L)
  show ?case
  proof (cases "Suc i < length L")
    case True
    from snoc.prems(1) have "parent_ok K (rev L)" by (cases "rev L") auto
    from snoc.IH[OF this True] snoc.prems(3) True show ?thesis
      by (simp add: nth_append)
  next
    case False
    with snoc.prems(2) have i: "Suc i = length L" by simp
    then obtain L' b1 where L: "L = L' @ [b1]" by (cases L rule: rev_cases) auto
    with i have i': "i = length L'" by simp
    from snoc.prems(1) L have "\<forall>v \<in> set b. \<exists>u \<in> set b1. v \<in> set (K u)" by simp
    moreover from snoc.prems(3) i have "v \<in> set b" by (simp add: nth_append)
    moreover have "(L @ [b]) ! i = b1" using L i' by (simp add: nth_append)
    ultimately show ?thesis by simp
  qed
qed

lemma closure_ok_nth:
  "closure_ok K (rev L) \<Longrightarrow> Suc i < length L \<Longrightarrow> u \<in> set (L ! i) \<Longrightarrow> v \<in> set (K u)
     \<Longrightarrow> v \<in> set (concat (take (Suc (Suc i)) L))"
proof (induction L arbitrary: i rule: rev_induct)
  case Nil
  then show ?case by simp
next
  case (snoc b L)
  show ?case
  proof (cases "Suc i < length L")
    case True
    from snoc.prems(1) have "closure_ok K (rev L)" by (cases "rev L") auto
    from snoc.IH[OF this True] snoc.prems(3,4) True show ?thesis
      by (simp add: nth_append)
  next
    case False
    with snoc.prems(2) have i: "Suc i = length L" by simp
    then obtain L' b1 where L: "L = L' @ [b1]" by (cases L rule: rev_cases) auto
    with i have i': "i = length L'" by simp
    from snoc.prems(1) L have "\<forall>u \<in> set b1. set (K u) \<subseteq> set (concat (b # b1 # rev L'))" by simp
    moreover have "(L @ [b]) ! i = b1" using L i' by (simp add: nth_append)
    ultimately have "v \<in> set (concat (b # b1 # rev L'))" using snoc.prems(3,4) by auto
    then have "v \<in> set (concat (L @ [b]))" using L by auto
    moreover have "take (Suc (Suc i)) (L @ [b]) = L @ [b]" using i by simp
    ultimately show ?thesis by simp
  qed
qed

lemma in_concat_take:
  "v \<in> set (concat (take n L)) \<Longrightarrow> \<exists>j < n. j < length L \<and> v \<in> set (L ! j)"
proof -
  assume "v \<in> set (concat (take n L))"
  then obtain b where "b \<in> set (take n L)" "v \<in> set b" by auto
  then obtain j where "j < length (take n L)" "take n L ! j = b"
    by (auto simp: in_set_conv_nth)
  then show ?thesis using \<open>v \<in> set b\<close> by (intro exI[of _ j]) auto
qed

lemma stage_inv_final_reachable:
  assumes "stage_inv nodes0 start (st, [])"
  shows "set (concat (steps_nodes st)) = reachable nodes0 start"
proof
  from assms show "set (concat (steps_nodes st)) \<subseteq> reachable nodes0 start"
    by (simp add: stage_inv_def)
next
  from assms have s: "start \<in> set (concat (steps_nodes st))"
    and c: "\<forall>u \<in> set (concat (steps_nodes st)).
              set (kids nodes0 u) \<subseteq> set (concat (steps_nodes st))"
    by (simp_all add: stage_inv_def)
  show "reachable nodes0 start \<subseteq> set (concat (steps_nodes st))"
  proof
    fix k assume "k \<in> reachable nodes0 start"
    then have "(start, k) \<in> {(u, v). v \<in> set (kids nodes0 u)}\<^sup>*" by (simp add: reachable_def)
    then show "k \<in> set (concat (steps_nodes st))"
    proof (induction rule: rtrancl_induct)
      case base
      then show ?case by (rule s)
    next
      case (step y z)
      then have "z \<in> set (kids nodes0 y)" by simp
      with c step.IH show ?case by blast
    qed
  qed
qed

section \<open>The table with a loop\<close>

lemma upt_5: "[0..<5] = [0,1,2,3,4]" "[0..<4] = [0,1,2,3]"
  by (simp_all add: upt_rec)

lemma lt: "\<forall>k. fmlookup loop_table k = fmlookup loop_table_lit k"
  by (simp add: loop_table_def loop_table_lit_def populateTransitions_def loop_path_def loop_subPath_def
     upt_5 key_def equals_def Let_def fmlookup_of_list)

lemma lt2: "loop_table = loop_table_lit"
  using lt by (metis fmap_ext)

lemma ln: "\<exists>r. nodesFromTransitions (0, 2) (3, 1) loop_table_lit = Some (Inr r)
          \<and> (\<forall>k. fmlookup r k = fmlookup loop_nodes k)"
  by (simp add: graph_eval loop_table_lit_def loop_nodes_def fmlookup_of_list)

lemma loop_nodesFromTransitions:
  "nodesFromTransitions (0, 2) (3, 1) loop_table = Some (Inr loop_nodes)"
proof -
  from ln obtain r where r: "nodesFromTransitions (0, 2) (3, 1) loop_table_lit = Some (Inr r)"
    and l: "\<And>k. fmlookup r k = fmlookup loop_nodes k" by blast
  from l have "r = loop_nodes" by (rule fmap_ext)
  with r show ?thesis by (simp add: lt2)
qed

lemma visitChild_Inr_dom:
  assumes "visitChild rnd np currentKey childKey (st, cn) = Inr (st', cn')"
  shows "currentKey \<in> fmdom' (mapNodes st) \<and> childKey \<in> fmdom' (mapNodes st)"
proof -
  from assms have "fmlookup (mapNodes st) currentKey \<noteq> None"
    by (auto simp: visitChild_def Let_def split: option.splits)
  moreover from assms have "fmlookup (mapNodes st) childKey \<noteq> None"
    by (auto simp: visitChild_def Let_def split: option.splits)
  ultimately show ?thesis by (auto simp: in_fmdom'_lookup)
qed

lemma loop_nodes_closed: "closed_nodes loop_nodes"
  unfolding closed_nodes_def loop_nodes_def
  by (auto simp: fmlookup_of_list fmdom'_alt_def split: if_splits)

lemma loop_nodes_dom: "key (0, 2) \<in> fmdom' loop_nodes" "key (3, 1) \<in> fmdom' loop_nodes"
  by (simp_all add: loop_nodes_def key_def fmdom'_alt_def)

section \<open>Properties of the staged batches\<close>

text \<open>
  Claim C6. For every node graph (acyclic or not) whose start and end nodes exist, staging
  returns, the node batches together hold exactly the nodes reachable from the start by
  child links, no node is listed twice, every parent/child edge between reachable nodes
  is listed exactly once in the edge batches, counted in either direction, and the edge
  batches list nothing else.
\<close>

theorem staging_batches_cover_graph:
  assumes "closed_nodes nodes0" and "key start \<in> fmdom' nodes0" and "key endp \<in> fmdom' nodes0"
  shows "\<exists>st. staging rnd np nodes0 start endp = Some (Inr st)
           \<and> set (concat (steps_nodes st)) = reachable nodes0 (key start)
           \<and> distinct (concat (steps_nodes st))
           \<and> (\<forall>u \<in> reachable nodes0 (key start). \<forall>v \<in> set (kids nodes0 u).
                 length (filter (\<lambda>p. p = (u, v) \<or> p = (v, u)) (concat (steps_paths st))) = 1)
           \<and> (\<forall>p \<in> set (concat (steps_paths st)).
                 fst p \<in> reachable nodes0 (key start) \<and> snd p \<in> set (kids nodes0 (fst p)))"
proof -
  from staging_total[OF assms, of rnd np] obtain st where
    r: "staging rnd np nodes0 start endp = Some (Inr st)"
    and inv: "stage_inv nodes0 (key start) (st, [])" and cp: "currentPaths st = []" by blast
  have re: "set (concat (steps_nodes st)) = reachable nodes0 (key start)"
    by (rule stage_inv_final_reachable[OF inv])
  from inv have d: "distinct (concat (steps_nodes st))" by (simp add: stage_inv_def)
  from inv cp have ed: "edistinct (concat (steps_paths st))"
    and cov: "\<forall>u \<in> set (concat (steps_nodes st)). \<forall>v \<in> set (kids nodes0 u).
                containsPath (concat (steps_paths st)) (u, v)"
    and real: "\<forall>e \<in> set (concat (steps_paths st)).
                fst e \<in> set (concat (steps_nodes st)) \<and> snd e \<in> set (kids nodes0 (fst e))"
    by (simp_all add: stage_inv_def)
  have once: "length (filter (\<lambda>p. p = (u, v) \<or> p = (v, u)) (concat (steps_paths st))) = 1"
    if "u \<in> reachable nodes0 (key start)" "v \<in> set (kids nodes0 u)" for u v
  proof -
    from that cov re have "containsPath (concat (steps_paths st)) (u, v)" by blast
    from edistinct_count[OF ed this] show ?thesis by (simp add: sameEdge_eq)
  qed
  from r re d once real show ?thesis by blast
qed

theorem staging_batches_cover_graph_witness:
  "\<exists>st. staging (\<lambda>k. 9 / 10) 5 loop_nodes (0, 2) (3, 1) = Some (Inr st)
           \<and> set (concat (steps_nodes st)) = reachable loop_nodes (key (0, 2))
           \<and> distinct (concat (steps_nodes st))
           \<and> (\<forall>u \<in> reachable loop_nodes (key (0, 2)). \<forall>v \<in> set (kids loop_nodes u).
                 length (filter (\<lambda>p. p = (u, v) \<or> p = (v, u)) (concat (steps_paths st))) = 1)
           \<and> (\<forall>p \<in> set (concat (steps_paths st)).
                 fst p \<in> reachable loop_nodes (key (0, 2)) \<and> snd p \<in> set (kids loop_nodes (fst p)))"
  using staging_batches_cover_graph[OF loop_nodes_closed loop_nodes_dom] .

text \<open>
  Claim C7, as stated, on the table with a loop: the node \<open>(3,3)\<close> is staged in batch 3
  and its child \<open>(2,2)\<close> in batch 2, found earlier through its other parent \<open>(1,1)\<close>.
\<close>

theorem later_parent_counterexample:
  "\<exists>st. buildAnimationSteps (\<lambda>k. 9 / 10) 5 (0, 2) (3, 1) loop_table = Some (Inr st)
      \<and> steps_nodes st = [[(0, 2)], [(1, 1), (1, 3)], [(2, 2), (2, 4)], [(3, 1), (3, 3)], []]
      \<and> map_option children (fmlookup (mapNodes st) (3, 3)) = Some [(2, 2)]
      \<and> (3, 3) \<in> set (steps_nodes st ! 3) \<and> (2, 2) \<in> set (steps_nodes st ! 2)"
  unfolding buildAnimationSteps_def loop_nodesFromTransitions
  by (simp add: staging_eval loop_nodes_def fmlookup_of_list key_def)

text \<open>
  Claim C7, amended. The first batch is the start node; every node of a later batch has
  a parent in the batch just before it, the parent that discovered it; and every child
  of a node of batch \<open>i\<close> is staged in batch \<open>i + 1\<close> or earlier.
\<close>

theorem staging_batch_levels:
  assumes "closed_nodes nodes0" and "key start \<in> fmdom' nodes0" and "key endp \<in> fmdom' nodes0"
  shows "\<exists>st. staging rnd np nodes0 start endp = Some (Inr st)
           \<and> steps_nodes st \<noteq> [] \<and> hd (steps_nodes st) = [key start]
           \<and> (\<forall>i v. Suc i < length (steps_nodes st) \<longrightarrow> v \<in> set (steps_nodes st ! Suc i) \<longrightarrow>
                 (\<exists>u \<in> set (steps_nodes st ! i). v \<in> set (kids nodes0 u)))
           \<and> (\<forall>i u v. i < length (steps_nodes st) \<longrightarrow> u \<in> set (steps_nodes st ! i) \<longrightarrow>
                 v \<in> set (kids nodes0 u) \<longrightarrow>
                 (\<exists>j \<le> Suc i. j < length (steps_nodes st) \<and> v \<in> set (steps_nodes st ! j)))"
proof -
  from staging_total[OF assms, of rnd np] obtain st where
    r: "staging rnd np nodes0 start endp = Some (Inr st)"
    and inv: "stage_inv nodes0 (key start) (st, [])" by blast
  define B where "B = steps_nodes st"
  define K where "K = kids nodes0"
  from inv have po: "parent_ok K (rev (B @ [[]]))" and co: "closure_ok K (rev (B @ [[]]))"
    and la: "last ([] # rev B) = [key start]"
    by (simp_all add: stage_inv_def B_def K_def)
  from la have ne: "B \<noteq> []" by (cases B) auto
  with la have hd: "hd B = [key start]" by (simp add: last_rev)
  have p: "\<exists>u \<in> set (B ! i). v \<in> set (K u)" if "Suc i < length B" "v \<in> set (B ! Suc i)" for i v
    using parent_ok_nth[OF po, of i v] that by (simp add: nth_append)
  have c: "\<exists>j \<le> Suc i. j < length B \<and> v \<in> set (B ! j)"
    if "i < length B" "u \<in> set (B ! i)" "v \<in> set (K u)" for i u v
  proof -
    from closure_ok_nth[OF co, of i u v] that
    have "v \<in> set (concat (take (Suc (Suc i)) (B @ [[]])))" by (simp add: nth_append)
    from in_concat_take[OF this] obtain j where
      j: "j < Suc (Suc i)" "j < length (B @ [[]])" "v \<in> set ((B @ [[]]) ! j)" by blast
    have "j < length B"
    proof (rule ccontr)
      assume "\<not> j < length B"
      with j(2) have "j = length B" by simp
      with j(3) show False by simp
    qed
    with j show ?thesis by (intro exI[of _ j]) (auto simp: nth_append)
  qed
  from r ne hd p c show ?thesis unfolding B_def K_def by blast
qed

theorem staging_batch_levels_witness:
  "\<exists>st. staging (\<lambda>k. 9 / 10) 5 loop_nodes (0, 2) (3, 1) = Some (Inr st)
           \<and> steps_nodes st \<noteq> [] \<and> hd (steps_nodes st) = [key (0, 2)]
           \<and> (\<forall>i v. Suc i < length (steps_nodes st) \<longrightarrow> v \<in> set (steps_nodes st ! Suc i) \<longrightarrow>
                 (\<exists>u \<in> set (steps_nodes st ! i). v \<in> set (kids loop_nodes u)))
           \<and> (\<forall>i u v. i < length (steps_nodes st) \<longrightarrow> u \<in> set (steps_nodes st ! i) \<longrightarrow>
                 v \<in> set (kids loop_nodes u) \<longrightarrow>
                 (\<exists>j \<le> Suc i. j < length (steps_nodes st) \<and> v \<in> set (steps_nodes st ! j)))"
  using staging_batch_levels[OF loop_nodes_closed loop_nodes_dom] .

section \<open>Properties of the search (AStar.find)\<close>

lemma upto_nth: "0 \<le> i \<Longrightarrow> i < n \<Longrightarrow> [0..n - 1] ! nat i = i"
  by (simp add: nth_upto)

lemma length_upto0: "length [0..n - 1] = nat n"
  by simp

lemma grid_new: "grid (new_AStar rnd width height) =
    map (\<lambda>x. map (\<lambda>y. gvertex rnd width height (x, y)) [0 .. height - 1]) [0 .. width - 1]"
  by (simp add: new_AStar_def Let_def gvertex_def)

lemma grid_nth:
  assumes "inb width height (x, y)"
  shows "grid (new_AStar rnd width height) ! nat x ! nat y = gvertex rnd width height (x, y)"
proof -
  from assms have b: "0 \<le> x" "x < width" "0 \<le> y" "y < height" by (simp_all add: inb_def)
  then have "nat x < length [0..width - 1]" "nat y < length [0..height - 1]" by simp_all
  then show ?thesis using b by (simp add: grid_new nth_upto)
qed

lemma length_grid_new: "length (grid (new_AStar rnd width height)) = nat width"
  by (simp add: grid_new)

lemma column_grid_new:
  assumes "0 \<le> x" "x < width"
  shows "grid (new_AStar rnd width height) ! nat x
               = map (\<lambda>y. gvertex rnd width height (x, y)) [0 .. height - 1]"
proof -
  from assms have "nat x < length [0..width - 1]" by simp
  with assms show ?thesis by (simp add: grid_new nth_upto)
qed

lemma getVertex_new:
  "getVertex (new_AStar rnd width height) x y =
     (if 0 \<le> x \<and> x < width then
        (if 0 \<le> y \<and> y < height then Inr (Some (gvertex rnd width height (x, y))) else Inr None)
      else Inl TypeError)"
proof (cases "0 \<le> x \<and> x < width")
  case False
  then show ?thesis unfolding getVertex_def length_grid_new by auto
next
  case True
  then have xb: "0 \<le> x \<and> x < int (nat width)" by simp
  have col: "grid (new_AStar rnd width height) ! nat x
               = map (\<lambda>y. gvertex rnd width height (x, y)) [0 .. height - 1]"
    using True by (simp add: column_grid_new)
  have len: "int (length (map (\<lambda>y. gvertex rnd width height (x, y)) [0 .. height - 1]))
               = (if 0 \<le> height then height else 0)" by simp
  show ?thesis
  proof (cases "0 \<le> y \<and> y < height")
    case False
    with True xb show ?thesis unfolding getVertex_def length_grid_new col len by auto
  next
    case yb: True
    then have "nat y < length [0..height - 1]" by simp
    then have "map (\<lambda>y. gvertex rnd width height (x, y)) [0 .. height - 1] ! nat y
                 = gvertex rnd width height (x, y)" using yb by (simp add: nth_upto)
    with True xb yb show ?thesis unfolding getVertex_def length_grid_new col len by auto
  qed
qed

declare range_by2.simps [simp del]

lemma set_range_by2: "set (range_by2 i bound) = {j. i \<le> j \<and> j < bound \<and> even (j - i)}"
proof (induction i bound rule: range_by2.induct)
  case (1 i bound)
  show ?case
  proof (cases "i < bound")
    case False
    then show ?thesis by (subst range_by2.simps) auto
  next
    case True
    have "{j. i \<le> j \<and> j < bound \<and> even (j - i)}
            = insert i {j. i + 2 \<le> j \<and> j < bound \<and> even (j - (i + 2))}"
    proof (rule set_eqI)
      fix j
      have "even (j - i) \<Longrightarrow> i \<le> j \<Longrightarrow> j \<noteq> i \<Longrightarrow> i + 2 \<le> j" by presburger
      then show "j \<in> {j. i \<le> j \<and> j < bound \<and> even (j - i)}
              \<longleftrightarrow> j \<in> insert i {j. i + 2 \<le> j \<and> j < bound \<and> even (j - (i + 2))}"
        using True by auto
    qed
    with 1[OF True] True show ?thesis by (subst range_by2.simps) simp
  qed
qed

lemma fold_fmupd_lookup:
  assumes "\<And>c. c \<in> set cells \<Longrightarrow> kf c = c"
  shows "fmlookup (fold (\<lambda>c adj. fmupd (kf c) (vf c) adj) cells m) k
           = (if k \<in> set cells then Some (vf k) else fmlookup m k)"
  using assms
proof (induction cells arbitrary: m)
  case Nil
  then show ?case by simp
next
  case (Cons c cells)
  have "fmlookup (fold (\<lambda>c adj. fmupd (kf c) (vf c) adj) cells (fmupd (kf c) (vf c) m)) k
          = (if k \<in> set cells then Some (vf k) else fmlookup (fmupd (kf c) (vf c) m) k)"
    by (rule Cons.IH) (simp add: Cons.prems)
  moreover have "kf c = c" by (simp add: Cons.prems)
  ultimately show ?case by auto
qed

lemma generateAdjacencies_new:
  "generateAdjacencies (grid (new_AStar rnd width height)) (gvertex rnd width height p) width height
     = map (gvertex rnd width height) (diag width height p)"
proof -
  have g: "inb width height (x, y) \<Longrightarrow>
             grid (new_AStar rnd width height) ! nat x ! nat y = gvertex rnd width height (x, y)" for x y
    by (rule grid_nth)
  have v: "vpos (gvertex rnd width height p) = p" by (simp add: gvertex_def)
  show ?thesis
    unfolding generateAdjacencies_def diag_def v Let_def
    using g[of "fst p + 1" "snd p + 1"] g[of "fst p - 1" "snd p + 1"]
          g[of "fst p - 1" "snd p - 1"] g[of "fst p + 1" "snd p - 1"]
    by (simp add: inb_def)
qed

lemma adjacencies_new:
  "fmlookup (adjacencies (new_AStar rnd width height)) p =
     (if inb width height p \<and> even (fst p + snd p)
      then Some (map (gvertex rnd width height) (diag width height p)) else None)"
proof -
  define g where "g = grid (new_AStar rnd width height)"
  define cells where "cells =
      concat (map (\<lambda>x. map (\<lambda>y. (x, y)) (range_by2 0 height)) (range_by2 0 width))
    @ concat (map (\<lambda>x. map (\<lambda>y. (x, y)) (range_by2 1 height)) (range_by2 1 width))"
  define kf where "kf = (\<lambda>c :: Point. key (vpos (g ! nat (fst c) ! nat (snd c))))"
  define vf where "vf = (\<lambda>c :: Point. generateAdjacencies g (g ! nat (fst c) ! nat (snd c)) width height)"
  have adj: "adjacencies (new_AStar rnd width height)
               = fold (\<lambda>c adj. fmupd (kf c) (vf c) adj) cells fmempty"
    unfolding new_AStar_def Let_def kf_def vf_def cells_def g_def
    by (simp add: grid_new[unfolded new_AStar_def Let_def, simplified] gvertex_def)
  have cells: "c \<in> set cells \<longleftrightarrow> inb width height c \<and> even (fst c + snd c)" for c
  proof -
    have "c \<in> set cells \<longleftrightarrow>
            (fst c \<in> set (range_by2 0 width) \<and> snd c \<in> set (range_by2 0 height))
          \<or> (fst c \<in> set (range_by2 1 width) \<and> snd c \<in> set (range_by2 1 height))"
      unfolding cells_def by (cases c) auto
    also have "\<dots> \<longleftrightarrow> inb width height c \<and> even (fst c + snd c)"
    proof (cases "even (fst c)")
      case True
      then have "odd (fst c - 1)" by simp
      with True show ?thesis unfolding set_range_by2 inb_def by auto
    next
      case False
      then have e: "even (fst c - 1)" by simp
      have o: "even (snd c - 1) \<longleftrightarrow> odd (snd c)" by simp
      have p: "odd (fst c) \<Longrightarrow> 0 \<le> fst c \<Longrightarrow> 1 \<le> fst c"
              "odd (snd c) \<Longrightarrow> 0 \<le> snd c \<Longrightarrow> 1 \<le> snd c"
        by presburger+
      from False e p show ?thesis unfolding set_range_by2 inb_def o
        by (auto simp: )
    qed
    finally show ?thesis .
  qed
  have gn: "c \<in> set cells \<Longrightarrow> g ! nat (fst c) ! nat (snd c) = gvertex rnd width height c" for c
    using grid_nth[of width height "fst c" "snd c" rnd] cells[of c] by (simp add: g_def)
  have kf: "c \<in> set cells \<Longrightarrow> kf c = c" for c
    using gn[of c] by (simp add: kf_def key_def gvertex_def)
  have vf: "c \<in> set cells \<Longrightarrow> vf c = map (gvertex rnd width height) (diag width height c)" for c
    using gn[of c] generateAdjacencies_new[of rnd width height c] by (simp add: vf_def g_def)
  have "fmlookup (fold (\<lambda>c adj. fmupd (kf c) (vf c) adj) cells fmempty) p
          = (if p \<in> set cells then Some (vf p) else fmlookup fmempty p)"
    by (rule fold_fmupd_lookup) (rule kf)
  then show ?thesis using cells[of p] vf[of p] by (simp add: adj)
qed

lemma finite_pcosts: "finite Vs \<Longrightarrow> finite (pcosts V Vs)"
  unfolding pcosts_def by (intro finite_imageI finite_subset_distinct)

lemma phi_decreases:
  assumes fin: "finite Vs" and v: "v \<in> Vs" and nc: "nc \<in> pcosts V Vs"
    and old: "case fmlookup cs v of None \<Rightarrow> True | Some x \<Rightarrow> nc < x"
  shows "phi V Vs (fmupd v nc cs) < phi V Vs cs"
proof -
  let ?f = "\<lambda>cs u. case fmlookup cs u of
                       None \<Rightarrow> card (pcosts V Vs) + 1
                     | Some x \<Rightarrow> card {y \<in> pcosts V Vs. y < x}"
  have fp: "finite (pcosts V Vs)" by (rule finite_pcosts[OF fin])
  have rest: "(\<Sum>u \<in> Vs - {v}. ?f (fmupd v nc cs) u) = (\<Sum>u \<in> Vs - {v}. ?f cs u)"
    by (rule sum.cong) auto
  have lt: "?f (fmupd v nc cs) v < ?f cs v"
  proof (cases "fmlookup cs v")
    case None
    have "card {y \<in> pcosts V Vs. y < nc} \<le> card (pcosts V Vs)"
      by (rule card_mono[OF fp]) auto
    with None show ?thesis by simp
  next
    case (Some x)
    with old have "nc < x" by simp
    then have "{y \<in> pcosts V Vs. y < nc} \<subset> {y \<in> pcosts V Vs. y < x}"
      using nc by auto
    then have "card {y \<in> pcosts V Vs. y < nc} < card {y \<in> pcosts V Vs. y < x}"
      by (intro psubset_card_mono) (simp_all add: fp)
    with Some show ?thesis by simp
  qed
  have "phi V Vs (fmupd v nc cs) = ?f (fmupd v nc cs) v + (\<Sum>u \<in> Vs - {v}. ?f (fmupd v nc cs) u)"
    unfolding phi_def by (rule sum.remove[OF fin v])
  also have "\<dots> < ?f cs v + (\<Sum>u \<in> Vs - {v}. ?f cs u)"
    unfolding rest using lt by simp
  also have "\<dots> = phi V Vs cs"
    unfolding phi_def by (rule sum.remove[OF fin v, symmetric])
  finally show ?thesis .
qed

lemma sum_take_le:
  assumes "\<forall>x \<in> set xs. (0::real) \<le> f x"
  shows "sum_list (map f (take k xs)) \<le> sum_list (map f xs)"
proof -
  have "sum_list (map f xs) = sum_list (map f (take k xs)) + sum_list (map f (drop k xs))"
    by (metis append_take_drop_id map_append sum_list.append)
  moreover have "0 \<le> sum_list (map f (drop k xs))"
  proof (rule sum_list_nonneg)
    fix y assume "y \<in> set (map f (drop k xs))"
    then obtain x where "x \<in> set (drop k xs)" "y = f x" by auto
    with assms show "0 \<le> y" by (auto dest: in_set_dropD)
  qed
  ultimately show ?thesis by simp
qed

lemma key_id: "key p = p"
  by (simp add: key_def)

lemma relax_eq:
  assumes vp: "\<And>p. vpos (V p) = p" and cur: "cur \<in> fmdom' (costs s)"
  shows "relax (Some (V endp)) (V cur) (V v) s
           = Inr (if fires V s cur v then fired V endp s cur v else s)"
proof -
  from cur obtain c where c: "fmlookup (costs s) cur = Some c"
    unfolding in_fmdom'_lookup by blast
  then have cc: "cst s cur = c" by (simp add: cst_def)
  show ?thesis
    unfolding relax_def vp key_id c option.case Let_def cc[symmetric] fires_def fired_def
    by simp
qed

lemma cst_fired: "cst (fired V endp s cur v) x = (if x = v then cst s cur + cost (V v) else cst s x)"
  by (simp add: cst_def fired_def)

lemma dom_fired: "fmdom' (costs (fired V endp s cur v)) = insert v (fmdom' (costs s))"
  "fmdom' (origin (fired V endp s cur v)) = insert v (fmdom' (origin s))"
  by (simp_all add: fired_def)

lemma data_fired:
  "data ` set (frontier (fired V endp s cur v)) = insert (V v) (data ` set (frontier s))"
  by (simp add: fired_def set_pq_insert)

lemma fires_old:
  assumes "fires V s cur v" "v \<in> fmdom' (costs s)"
  shows "cst s cur + cost (V v) < cst s v"
proof -
  from assms(2) obtain x where "fmlookup (costs s) v = Some x"
    unfolding in_fmdom'_lookup by blast
  with assms(1) show ?thesis by (simp add: fires_def cst_def)
qed

lemma not_fires:
  assumes "\<not> fires V s cur v"
  shows "v \<in> fmdom' (costs s) \<and> \<not> cst s cur + cost (V v) < cst s v"
proof -
  from assms obtain x where "fmlookup (costs s) v = Some x" "\<not> cst s cur + cost (V v) < x"
    by (auto simp: fires_def split: option.splits)
  then show ?thesis by (auto simp: cst_def in_fmdom'_lookup)
qed

lemma V_inj: "(\<And>p. vpos (V p) = p) \<Longrightarrow> V a = V b \<Longrightarrow> a = b"
  by metis

lemma origin_chain_mono:
  assumes vp: "\<And>p. vpos (V p) = p" and t: "tree_inv V Vs adj start s"
    and r: "(a, b) \<in> {(v, u). fmlookup (origin s) v = Some (Some (V u))}\<^sup>*"
    and a: "a \<in> fmdom' (costs s)"
  shows "b \<in> fmdom' (costs s) \<and> cst s b \<le> cst s a"
  using r
proof (induction rule: rtrancl_induct)
  case base
  then show ?case using a by simp
next
  case (step y z)
  then have "fmlookup (origin s) y = Some (Some (V z))" by simp
  with t obtain u where u: "u \<in> fmdom' (costs s)" "V z = V u" "cst s u \<le> cst s y"
    unfolding tree_inv_def by blast
  from V_inj[OF vp u(2)] have "z = u" .
  with u step.IH show ?case by auto
qed

lemma relax_tree:
  assumes vp: "\<And>p. vpos (V p) = p" and nn: "\<And>p. p \<in> Vs \<Longrightarrow> 0 \<le> cost (V p)"
    and t: "tree_inv V Vs adj start s"
    and cur: "cur \<in> fmdom' (costs s)" and v: "v \<in> set (adj cur)" and vs: "v \<in> Vs"
    and f: "fires V s cur v"
  shows "tree_inv V Vs adj start (fired V endp s cur v)"
proof -
  let ?s' = "fired V endp s cur v"
  let ?D = "fmdom' (costs s)"
  let ?nc = "cst s cur + cost (V v)"
  from t have d: "fmdom' (origin s) = ?D" and sub: "?D \<subseteq> Vs"
    and cs: "fmlookup (costs s) start = Some 0" and os: "fmlookup (origin s) start = Some None"
    and pos: "\<forall>x \<in> ?D. 0 \<le> cst s x"
    and par: "\<forall>x u'. fmlookup (origin s) x = Some (Some u') \<longrightarrow>
         x \<noteq> start \<and> (\<exists>u \<in> ?D. u' = V u \<and> x \<in> set (adj u) \<and> cst s u \<le> cst s x)"
    and has: "\<forall>x \<in> ?D. x \<noteq> start \<longrightarrow> (\<exists>u'. fmlookup (origin s) x = Some (Some u'))"
    unfolding tree_inv_def by simp_all
  from t have acy: "acyclic {(x, u). fmlookup (origin s) x = Some (Some (V u))}"
    unfolding tree_inv_def by blast
  have cv: "0 \<le> cost (V v)" by (rule nn[OF vs])
  have ccur: "0 \<le> cst s cur" using pos cur by blast
  have old: "?nc < cst s x" if "x = v" "x \<in> ?D" for x
    using fires_old[OF f] that by simp
  have sD: "start \<in> ?D" using cs by (simp add: in_fmdom'_lookup)
  have vstart: "v \<noteq> start"
  proof
    assume "v = start"
    with old[of v] sD have "?nc < cst s start" by simp
    moreover have "cst s start = 0" using cs by (simp add: cst_def)
    ultimately show False using cv ccur by simp
  qed
  have vcur: "v \<noteq> cur"
  proof
    assume "v = cur"
    with old[of v] cur have "?nc < cst s cur" by simp
    with cv show False by simp
  qed
  have le: "cst ?s' x \<le> cst s x" if "x \<in> ?D" for x
    using old[of x] that by (auto simp: cst_fired)
  have 1: "fmdom' (origin ?s') = fmdom' (costs ?s')" by (simp add: dom_fired d)
  have 2: "fmdom' (costs ?s') \<subseteq> Vs" using sub vs by (simp add: dom_fired)
  have 3: "fmlookup (costs ?s') start = Some 0" using cs vstart by (simp add: fired_def)
  have 4: "fmlookup (origin ?s') start = Some None" using os vstart by (simp add: fired_def)
  have 5: "\<forall>x \<in> fmdom' (costs ?s'). 0 \<le> cst ?s' x"
    using pos cv ccur by (auto simp: dom_fired cst_fired)
  have 6: "\<forall>x u'. fmlookup (origin ?s') x = Some (Some u') \<longrightarrow>
         x \<noteq> start \<and> (\<exists>u \<in> fmdom' (costs ?s'). u' = V u \<and> x \<in> set (adj u)
                          \<and> cst ?s' u \<le> cst ?s' x)"
  proof (intro allI impI)
    fix x u' assume o: "fmlookup (origin ?s') x = Some (Some u')"
    show "x \<noteq> start \<and> (\<exists>u \<in> fmdom' (costs ?s'). u' = V u \<and> x \<in> set (adj u)
                          \<and> cst ?s' u \<le> cst ?s' x)"
    proof (cases "x = v")
      case True
      with o have "u' = V cur" by (simp add: fired_def)
      moreover have "cst ?s' cur \<le> cst ?s' v" using vcur cv by (simp add: cst_fired)
      ultimately show ?thesis using True vstart cur v by (auto simp: dom_fired)
    next
      case False
      with o have "fmlookup (origin s) x = Some (Some u')" by (simp add: fired_def)
      with par obtain u where u: "x \<noteq> start" "u \<in> ?D" "u' = V u" "x \<in> set (adj u)"
        "cst s u \<le> cst s x" by blast
      have "cst ?s' u \<le> cst s u" by (rule le[OF u(2)])
      moreover have "cst ?s' x = cst s x" using False by (simp add: cst_fired)
      ultimately show ?thesis using u by (auto simp: dom_fired)
    qed
  qed
  have 7: "\<forall>x \<in> fmdom' (costs ?s'). x \<noteq> start \<longrightarrow>
             (\<exists>u'. fmlookup (origin ?s') x = Some (Some u'))"
    using has by (auto simp: dom_fired fired_def)
  have 8: "acyclic {(x, u). fmlookup (origin ?s') x = Some (Some (V u))}"
  proof -
    let ?Rold = "{(x, u). fmlookup (origin s) x = Some (Some (V u))}"
    let ?Rcut = "{(x, u). x \<noteq> v \<and> fmlookup (origin s) x = Some (Some (V u))}"
    have inj: "V a = V b \<longleftrightarrow> a = b" for a b using V_inj[OF vp] by blast
    have eq: "{(x, u). fmlookup (origin ?s') x = Some (Some (V u))} = insert (v, cur) ?Rcut"
    proof (rule set_eqI)
      fix z :: "Point \<times> Point"
      obtain x u where z: "z = (x, u)" by (cases z)
      show "z \<in> {(x, u). fmlookup (origin ?s') x = Some (Some (V u))}
              \<longleftrightarrow> z \<in> insert (v, cur) ?Rcut"
        unfolding z by (cases "x = v") (simp_all add: fired_def inj eq_commute)
    qed
    have sub0: "?Rcut \<subseteq> ?Rold" by auto
    have a0: "acyclic ?Rcut" by (rule acyclic_subset[OF acy sub0])
    have "(cur, v) \<notin> ?Rcut\<^sup>*"
    proof
      assume "(cur, v) \<in> ?Rcut\<^sup>*"
      with sub0 have "(cur, v) \<in> ?Rold\<^sup>*" by (meson rtrancl_mono subsetD)
      from origin_chain_mono[OF vp t this cur] have "v \<in> ?D" "cst s v \<le> cst s cur" by simp_all
      with old[of v] cv show False by simp
    qed
    with a0 show ?thesis unfolding eq by (simp add: acyclic_insert)
  qed
  show ?thesis unfolding tree_inv_def using 1 2 3 4 5 6 7 8 by blast
qed

lemma pcost_snoc: "pcost V (p @ [v]) = pcost V p + cost (V v)"
  by (simp add: pcost_def)

lemma relax_ghost:
  assumes nn: "\<And>p. p \<in> Vs \<Longrightarrow> 0 \<le> cost (V p)"
    and g: "ghost_inv V Vs w s"
    and cur: "cur \<in> fmdom' (costs s)" and vs: "v \<in> Vs"
    and f: "fires V s cur v"
  shows "ghost_inv V Vs (w(v := w cur @ [v])) (fired V endp s cur v)"
    and "cst s cur + cost (V v) \<in> pcosts V Vs"
proof -
  let ?s' = "fired V endp s cur v"
  let ?D = "fmdom' (costs s)"
  let ?nc = "cst s cur + cost (V v)"
  let ?w' = "w(v := w cur @ [v])"
  have gx: "cst s x = pcost V (w x)" "distinct (w x)" "set (w x) \<subseteq> Vs"
    "\<And>n. n < length (w x) \<Longrightarrow> w x ! n \<in> ?D \<and> cst s (w x ! n) \<le> pcost V (take (Suc n) (w x))"
    if "x \<in> ?D" for x
    using g that unfolding ghost_inv_def by blast+
  have cv: "0 \<le> cost (V v)" by (rule nn[OF vs])
  have old: "?nc < cst s x" if "x = v" "x \<in> ?D" for x
    using fires_old[OF f] that by simp
  have le: "cst ?s' x \<le> cst s x" if "x \<in> ?D" for x
    using old[of x] that by (auto simp: cst_fired)
  have vnot: "v \<notin> set (w cur)"
  proof
    assume "v \<in> set (w cur)"
    then obtain n where n: "n < length (w cur)" "w cur ! n = v"
      by (auto simp: in_set_conv_nth)
    from gx(4)[OF cur n(1)] n(2) have vD: "v \<in> ?D"
      and c1: "cst s v \<le> pcost V (take (Suc n) (w cur))" by simp_all
    have "\<forall>x \<in> set (w cur). 0 \<le> cost (V x)" using gx(3)[OF cur] nn by blast
    then have "pcost V (take (Suc n) (w cur)) \<le> pcost V (w cur)"
      unfolding pcost_def by (rule sum_take_le)
    with c1 gx(1)[OF cur] have "cst s v \<le> cst s cur" by simp
    with old[of v] vD cv show False by simp
  qed
  have wv: "?w' v = w cur @ [v]" by simp
  show pc: "?nc \<in> pcosts V Vs"
  proof -
    have "?nc = pcost V (w cur @ [v])" using gx(1)[OF cur] by (simp add: pcost_snoc)
    moreover have "set (w cur @ [v]) \<subseteq> Vs" "distinct (w cur @ [v])"
      using gx(2,3)[OF cur] vs vnot by auto
    ultimately show ?thesis unfolding pcosts_def by blast
  qed
  show "ghost_inv V Vs ?w' ?s'"
    unfolding ghost_inv_def
  proof (intro ballI)
    fix x assume "x \<in> fmdom' (costs ?s')"
    then have xD: "x = v \<or> x \<in> ?D" by (simp add: dom_fired)
    show "cst ?s' x = pcost V (?w' x) \<and> distinct (?w' x) \<and> set (?w' x) \<subseteq> Vs
        \<and> (\<forall>n < length (?w' x). ?w' x ! n \<in> fmdom' (costs ?s')
               \<and> cst ?s' (?w' x ! n) \<le> pcost V (take (Suc n) (?w' x)))"
    proof (cases "x = v")
      case True
      have a: "cst ?s' v = pcost V (w cur @ [v])"
        using gx(1)[OF cur] by (simp add: cst_fired pcost_snoc)
      have b: "distinct (w cur @ [v])" "set (w cur @ [v]) \<subseteq> Vs"
        using gx(2,3)[OF cur] vs vnot by auto
      have c: "(w cur @ [v]) ! n \<in> fmdom' (costs ?s')
               \<and> cst ?s' ((w cur @ [v]) ! n) \<le> pcost V (take (Suc n) (w cur @ [v]))"
        if "n < length (w cur @ [v])" for n
      proof (cases "n < length (w cur)")
        case True
        from gx(4)[OF cur True] have e: "w cur ! n \<in> ?D"
          "cst s (w cur ! n) \<le> pcost V (take (Suc n) (w cur))" by simp_all
        from le[OF e(1)] e(2) have "cst ?s' (w cur ! n) \<le> pcost V (take (Suc n) (w cur))"
          by simp
        with e(1) True show ?thesis by (simp add: nth_append dom_fired)
      next
        case False
        with that have "n = length (w cur)" by simp
        with a show ?thesis by (simp add: dom_fired)
      qed
      from a b c True show ?thesis by simp
    next
      case False
      with xD have x: "x \<in> ?D" by simp
      have "?w' x ! n \<in> fmdom' (costs ?s')
               \<and> cst ?s' (?w' x ! n) \<le> pcost V (take (Suc n) (?w' x))"
        if "n < length (?w' x)" for n
      proof -
        from that False have n: "n < length (w x)" by simp
        from gx(4)[OF x n] have e: "w x ! n \<in> ?D"
          "cst s (w x ! n) \<le> pcost V (take (Suc n) (w x))" by simp_all
        from le[OF e(1)] e(2) have "cst ?s' (w x ! n) \<le> pcost V (take (Suc n) (w x))" by simp
        with e(1) False show ?thesis by (simp add: dom_fired)
      qed
      with gx(1,2,3)[OF x] False show ?thesis by (simp add: cst_fired)
    qed
  qed
qed

lemma relax_front:
  assumes fr: "front_inv V adj endp X s"
  shows "front_inv V adj endp X (fired V endp s cur v)"
proof -
  let ?s' = "fired V endp s cur v"
  from fr have a: "\<forall>e \<in> set (frontier s). \<exists>p \<in> fmdom' (costs s). data e = V p"
    and b: "\<forall>u \<in> fmdom' (costs s). u \<in> X \<or> V u \<in> data ` set (frontier s)
          \<or> set (adj u) \<subseteq> fmdom' (costs s)"
    and c: "endp \<in> fmdom' (costs s) \<longrightarrow> V endp \<in> data ` set (frontier s)"
    unfolding front_inv_def by simp_all
  have 1: "\<forall>e \<in> set (frontier ?s'). \<exists>p \<in> fmdom' (costs ?s'). data e = V p"
  proof
    fix e assume "e \<in> set (frontier ?s')"
    then have "data e = V v \<or> e \<in> set (frontier s)"
      by (auto simp: fired_def set_pq_insert)
    with a show "\<exists>p \<in> fmdom' (costs ?s'). data e = V p" by (auto simp: dom_fired)
  qed
  have 2: "\<forall>u \<in> fmdom' (costs ?s'). u \<in> X \<or> V u \<in> data ` set (frontier ?s')
          \<or> set (adj u) \<subseteq> fmdom' (costs ?s')"
  proof
    fix u assume "u \<in> fmdom' (costs ?s')"
    then have "u = v \<or> u \<in> fmdom' (costs s)" by (simp add: dom_fired)
    then show "u \<in> X \<or> V u \<in> data ` set (frontier ?s')
          \<or> set (adj u) \<subseteq> fmdom' (costs ?s')"
    proof
      assume "u = v"
      then show ?thesis unfolding data_fired by simp
    next
      assume "u \<in> fmdom' (costs s)"
      with b have "u \<in> X \<or> V u \<in> data ` set (frontier s)
          \<or> set (adj u) \<subseteq> fmdom' (costs s)" by blast
      then show ?thesis unfolding data_fired dom_fired by blast
    qed
  qed
  have 3: "endp \<in> fmdom' (costs ?s') \<longrightarrow> V endp \<in> data ` set (frontier ?s')"
    using c unfolding data_fired dom_fired by auto
  show ?thesis unfolding front_inv_def using 1 2 3 by blast
qed

lemma relax_loop:
  assumes vp: "\<And>p. vpos (V p) = p" and nn: "\<And>p. p \<in> Vs \<Longrightarrow> 0 \<le> cost (V p)"
    and fin: "finite Vs"
  shows "tree_inv V Vs adj start s \<Longrightarrow> ghost_inv V Vs w s \<Longrightarrow> front_inv V adj endp X s \<Longrightarrow>
     cur \<in> fmdom' (costs s) \<Longrightarrow> set vs \<subseteq> set (adj cur) \<Longrightarrow> set vs \<subseteq> Vs \<Longrightarrow>
     \<exists>s' w'. for_each (relax (Some (V endp)) (V cur)) (map V vs) s = Inr s'
        \<and> tree_inv V Vs adj start s' \<and> ghost_inv V Vs w' s' \<and> front_inv V adj endp X s'
        \<and> fmdom' (costs s) \<subseteq> fmdom' (costs s') \<and> set vs \<subseteq> fmdom' (costs s')
        \<and> (phi V Vs (costs s') < phi V Vs (costs s)
            \<or> (costs s' = costs s \<and> length (frontier s') = length (frontier s)))"
proof (induction vs arbitrary: s w)
  case Nil
  then show ?case by auto
next
  case (Cons v vs)
  from Cons.prems have v: "v \<in> set (adj cur)" and vs: "v \<in> Vs"
    and rest: "set vs \<subseteq> set (adj cur)" "set vs \<subseteq> Vs" by auto
  define s1 where "s1 = (if fires V s cur v then fired V endp s cur v else s)"
  have rel: "relax (Some (V endp)) (V cur) (V v) s = Inr s1"
    unfolding s1_def by (rule relax_eq[OF vp Cons.prems(4)])
  have step: "\<exists>w1. tree_inv V Vs adj start s1 \<and> ghost_inv V Vs w1 s1 \<and> front_inv V adj endp X s1
        \<and> fmdom' (costs s) \<subseteq> fmdom' (costs s1) \<and> v \<in> fmdom' (costs s1)
        \<and> (phi V Vs (costs s1) < phi V Vs (costs s)
            \<or> (costs s1 = costs s \<and> length (frontier s1) = length (frontier s)))"
  proof (cases "fires V s cur v")
    case False
    then have "s1 = s" by (simp add: s1_def)
    with not_fires[OF False] Cons.prems(1,2,3) show ?thesis by auto
  next
    case True
    then have e: "s1 = fired V endp s cur v" by (simp add: s1_def)
    have t: "tree_inv V Vs adj start s1" unfolding e
      by (rule relax_tree[OF vp nn Cons.prems(1,4) v vs True])
    have g: "ghost_inv V Vs (w(v := w cur @ [v])) s1" unfolding e
      by (rule relax_ghost(1)[OF nn Cons.prems(2,4) vs True])
    have pc: "cst s cur + cost (V v) \<in> pcosts V Vs"
      by (rule relax_ghost(2)[OF nn Cons.prems(2,4) vs True])
    have f: "front_inv V adj endp X s1" unfolding e by (rule relax_front[OF Cons.prems(3)])
    have "phi V Vs (fmupd v (cst s cur + cost (V v)) (costs s)) < phi V Vs (costs s)"
      using True by (intro phi_decreases[OF fin vs pc]) (simp add: fires_def)
    then have m: "phi V Vs (costs s1) < phi V Vs (costs s)" by (simp add: e fired_def)
    have d: "fmdom' (costs s) \<subseteq> fmdom' (costs s1)" "v \<in> fmdom' (costs s1)"
      by (auto simp: e dom_fired)
    from t g f m d show ?thesis by blast
  qed
  then obtain w1 where t1: "tree_inv V Vs adj start s1" and g1: "ghost_inv V Vs w1 s1"
    and f1: "front_inv V adj endp X s1"
    and d1: "fmdom' (costs s) \<subseteq> fmdom' (costs s1)" "v \<in> fmdom' (costs s1)"
    and m1: "phi V Vs (costs s1) < phi V Vs (costs s)
            \<or> (costs s1 = costs s \<and> length (frontier s1) = length (frontier s))" by blast
  from d1 Cons.prems(4) have c1: "cur \<in> fmdom' (costs s1)" by blast
  from Cons.IH[OF t1 g1 f1 c1 rest] obtain s' w' where
    r: "for_each (relax (Some (V endp)) (V cur)) (map V vs) s1 = Inr s'"
    and inv: "tree_inv V Vs adj start s'" "ghost_inv V Vs w' s'" "front_inv V adj endp X s'"
    and d: "fmdom' (costs s1) \<subseteq> fmdom' (costs s')" "set vs \<subseteq> fmdom' (costs s')"
    and m: "phi V Vs (costs s') < phi V Vs (costs s1)
            \<or> (costs s' = costs s1 \<and> length (frontier s') = length (frontier s1))" by blast
  have "for_each (relax (Some (V endp)) (V cur)) (map V (v # vs)) s = Inr s'"
    using rel r by simp
  moreover have "fmdom' (costs s) \<subseteq> fmdom' (costs s')" "set (v # vs) \<subseteq> fmdom' (costs s')"
    using d d1 by auto
  moreover have "phi V Vs (costs s') < phi V Vs (costs s)
            \<or> (costs s' = costs s \<and> length (frontier s') = length (frontier s))"
    using m m1 by auto
  ultimately show ?case using inv by blast
qed

lemma tree_inv_frontier: "tree_inv V Vs adj start (s\<lparr>frontier := q\<rparr>) = tree_inv V Vs adj start s"
  by (simp add: tree_inv_def cst_def)

lemma ghost_inv_frontier: "ghost_inv V Vs w (s\<lparr>frontier := q\<rparr>) = ghost_inv V Vs w s"
  by (simp add: ghost_inv_def cst_def)

lemma find_loop_total:
  assumes gr: "graph_ok a V Vs adj"
  shows "tree_inv V Vs adj start s \<Longrightarrow> ghost_inv V Vs w s \<Longrightarrow> front_inv V adj endp {} s \<Longrightarrow>
     \<exists>ex s'. find_loop a (Some (V endp)) s = Some (Inr (ex, s'))
        \<and> tree_inv V Vs adj start s'
        \<and> (ex = Exhausted \<longrightarrow> (\<forall>u \<in> fmdom' (costs s'). set (adj u) \<subseteq> fmdom' (costs s'))
                              \<and> endp \<notin> fmdom' (costs s'))
        \<and> (ex = Break \<longrightarrow> endp \<in> fmdom' (costs s'))"
proof -
  from gr have fin: "finite Vs" and vp: "\<And>p. vpos (V p) = p"
    and nn: "\<And>p. p \<in> Vs \<Longrightarrow> 0 \<le> cost (V p)"
    and ad: "\<And>p. p \<in> Vs \<Longrightarrow> fmlookup (adjacencies a) p = Some (map V (adj p))"
    and as: "\<And>p. p \<in> Vs \<Longrightarrow> set (adj p) \<subseteq> Vs"
    unfolding graph_ok_def by blast+
  have inj: "V x = V y \<longleftrightarrow> x = y" for x y using V_inj[OF vp] by blast
  let ?m = "\<lambda>s. (phi V Vs (costs s), length (frontier s))"
  have wf: "wf (inv_image (less_than <*lex*> less_than) ?m)"
    by (intro wf_inv_image wf_lex_prod wf_less_than)
  show "tree_inv V Vs adj start s \<Longrightarrow> ghost_inv V Vs w s \<Longrightarrow> front_inv V adj endp {} s \<Longrightarrow>
     \<exists>ex s'. find_loop a (Some (V endp)) s = Some (Inr (ex, s'))
        \<and> tree_inv V Vs adj start s'
        \<and> (ex = Exhausted \<longrightarrow> (\<forall>u \<in> fmdom' (costs s'). set (adj u) \<subseteq> fmdom' (costs s'))
                              \<and> endp \<notin> fmdom' (costs s'))
        \<and> (ex = Break \<longrightarrow> endp \<in> fmdom' (costs s'))"
    using wf
  proof (induction s arbitrary: w rule: wf_induct_rule)
    case (less s)
    note t = less.prems(1) and g = less.prems(2) and f = less.prems(3)
    show ?case
    proof (cases "frontier s")
      case Nil
      then have "find_loop a (Some (V endp)) s = Some (Inr (Exhausted, s))"
        by (subst find_loop.simps) simp
      moreover from f Nil have "\<forall>u \<in> fmdom' (costs s). set (adj u) \<subseteq> fmdom' (costs s)"
        "endp \<notin> fmdom' (costs s)" unfolding front_inv_def by auto
      ultimately show ?thesis using t by auto
    next
      case (Cons e rest)
      from f Cons obtain cur where cur: "cur \<in> fmdom' (costs s)" "data e = V cur"
        unfolding front_inv_def by auto
      define s1 where "s1 = s\<lparr>frontier := rest\<rparr>"
      have s1: "costs s1 = costs s" "origin s1 = origin s" "frontier s1 = rest"
        by (simp_all add: s1_def)
      have dq: "fst (dequeue (frontier s)) = Some (V cur)" "snd (dequeue (frontier s)) = rest"
        using Cons cur by (simp_all add: dequeue_def)
      have t1: "tree_inv V Vs adj start s1" unfolding s1_def tree_inv_frontier by (rule t)
      show ?thesis
      proof (cases "cur = endp")
        case True
        have "find_loop a (Some (V endp)) s = Some (Inr (Break, s1))"
          using Cons dq True by (subst find_loop.simps) (simp add: s1_def Let_def)
        with t1 cur(1) True s1 show ?thesis by auto
      next
        case False
        from t cur(1) have cV: "cur \<in> Vs" unfolding tree_inv_def by blast
        have g1: "ghost_inv V Vs w s1" unfolding s1_def ghost_inv_frontier by (rule g)
        have f1: "front_inv V adj endp {cur} s1"
          unfolding front_inv_def
        proof (intro conjI ballI impI)
          fix e' assume "e' \<in> set (frontier s1)"
          with f Cons s1 show "\<exists>p \<in> fmdom' (costs s1). data e' = V p"
            unfolding front_inv_def by auto
        next
          fix u assume u: "u \<in> fmdom' (costs s1)"
          show "u \<in> {cur} \<or> V u \<in> data ` set (frontier s1)
                  \<or> set (adj u) \<subseteq> fmdom' (costs s1)"
          proof (cases "u = cur")
            case True
            then show ?thesis by simp
          next
            case nc: False
            from f u s1 have "V u \<in> data ` set (frontier s) \<or> set (adj u) \<subseteq> fmdom' (costs s)"
              unfolding front_inv_def by auto
            moreover have "V u \<noteq> data e" using nc cur(2) inj by simp
            ultimately show ?thesis using Cons s1 by auto
          qed
        next
          assume "endp \<in> fmdom' (costs s1)"
          with f s1 have "V endp \<in> data ` set (frontier s)" unfolding front_inv_def by auto
          moreover have "V endp \<noteq> data e" using False cur(2) inj by simp
          ultimately show "V endp \<in> data ` set (frontier s1)" using Cons s1 by auto
        qed
        have c1: "cur \<in> fmdom' (costs s1)" using cur(1) s1 by simp
        from relax_loop[OF vp nn fin t1 g1 f1 c1 subset_refl as[OF cV]] obtain s2 w2 where
          r: "for_each (relax (Some (V endp)) (V cur)) (map V (adj cur)) s1 = Inr s2"
          and t2: "tree_inv V Vs adj start s2" and g2: "ghost_inv V Vs w2 s2"
          and f2: "front_inv V adj endp {cur} s2"
          and d2: "fmdom' (costs s1) \<subseteq> fmdom' (costs s2)" "set (adj cur) \<subseteq> fmdom' (costs s2)"
          and m2: "phi V Vs (costs s2) < phi V Vs (costs s1)
            \<or> (costs s2 = costs s1 \<and> length (frontier s2) = length (frontier s1))" by blast
        have f2': "front_inv V adj endp {} s2"
          using f2 d2(2) unfolding front_inv_def by auto
        have dec: "(s2, s) \<in> inv_image (less_than <*lex*> less_than) ?m"
          using m2 s1 Cons by auto
        from less.IH[OF dec t2 g2 f2'] obtain ex s' where
          fl: "find_loop a (Some (V endp)) s2 = Some (Inr (ex, s'))"
          and res: "tree_inv V Vs adj start s'"
            "ex = Exhausted \<longrightarrow> (\<forall>u \<in> fmdom' (costs s'). set (adj u) \<subseteq> fmdom' (costs s'))
                              \<and> endp \<notin> fmdom' (costs s')"
            "ex = Break \<longrightarrow> endp \<in> fmdom' (costs s')" by blast
        have "find_loop a (Some (V endp)) s = find_loop a (Some (V endp)) s2"
          using Cons dq False inj ad[OF cV] r vp
          by (subst find_loop.simps) (simp add: s1_def[symmetric] Let_def key_id)
        with fl res show ?thesis by auto
      qed
    qed
  qed
qed

lemma backtrace_chain:
  assumes vp: "\<And>p. vpos (V p) = p" and t: "tree_inv V Vs adj start s"
  shows "v \<in> fmdom' (costs s) \<Longrightarrow>
     \<exists>chain. backtrace (origin s) (Some (V v)) acc = Some (acc @ map V chain)
        \<and> chain \<noteq> [] \<and> hd chain = v \<and> last chain = start
        \<and> set chain \<subseteq> fmdom' (costs s)
        \<and> (\<forall>i. Suc i < length chain \<longrightarrow> chain ! i \<in> set (adj (chain ! Suc i)))"
proof -
  let ?R = "{(x, u). fmlookup (origin s) x = Some (Some (V u))}"
  let ?D = "fmdom' (costs s)"
  from t have os: "fmlookup (origin s) start = Some None"
    and par: "\<forall>x u'. fmlookup (origin s) x = Some (Some u') \<longrightarrow>
         x \<noteq> start \<and> (\<exists>u \<in> ?D. u' = V u \<and> x \<in> set (adj u) \<and> cst s u \<le> cst s x)"
    and has: "\<forall>x \<in> ?D. x \<noteq> start \<longrightarrow> (\<exists>u'. fmlookup (origin s) x = Some (Some u'))"
    and d: "fmdom' (origin s) = ?D"
    unfolding tree_inv_def by simp_all
  from t have acy: "acyclic ?R" unfolding tree_inv_def by blast
  have "?R \<subseteq> ?D \<times> ?D"
  proof
    fix z assume z: "z \<in> ?R"
    obtain x u where zz: "z = (x, u)" by (cases z)
    with z have o: "fmlookup (origin s) x = Some (Some (V u))" by simp
    then have "x \<in> fmdom' (origin s)" by (simp add: in_fmdom'_lookup)
    moreover from par o obtain u2 where "u2 \<in> ?D" "V u = V u2" by blast
    moreover then have "u = u2" using V_inj[OF vp] by blast
    ultimately show "z \<in> ?D \<times> ?D" using d zz by simp
  qed
  then have "finite ?R" by (rule finite_subset) simp
  then have wf: "wf (?R\<inverse>)" using acy by (rule finite_acyclic_wf_converse)
  show "v \<in> ?D \<Longrightarrow>
     \<exists>chain. backtrace (origin s) (Some (V v)) acc = Some (acc @ map V chain)
        \<and> chain \<noteq> [] \<and> hd chain = v \<and> last chain = start
        \<and> set chain \<subseteq> ?D
        \<and> (\<forall>i. Suc i < length chain \<longrightarrow> chain ! i \<in> set (adj (chain ! Suc i)))"
    using wf
  proof (induction v arbitrary: acc rule: wf_induct_rule)
    case (less v)
    show ?case
    proof (cases "v = start")
      case True
      have "backtrace (origin s) (Some (V v)) acc = Some (acc @ map V [start])"
        using os True vp
        by (subst backtrace.simps, subst backtrace.simps) (simp add: key_id)
      then show ?thesis using True less.prems by (intro exI[of _ "[start]"]) simp
    next
      case False
      with has less.prems obtain u' where o: "fmlookup (origin s) v = Some (Some u')" by blast
      with par obtain u where u: "u \<in> ?D" "u' = V u" "v \<in> set (adj u)" by blast
      from o u have "(u, v) \<in> ?R\<inverse>" by simp
      from less.IH[OF this u(1), of "acc @ [V v]"] obtain chain where
        c: "backtrace (origin s) (Some (V u)) (acc @ [V v]) = Some ((acc @ [V v]) @ map V chain)"
        "chain \<noteq> []" "hd chain = u" "last chain = start" "set chain \<subseteq> ?D"
        "\<forall>i. Suc i < length chain \<longrightarrow> chain ! i \<in> set (adj (chain ! Suc i))" by blast
      have "backtrace (origin s) (Some (V v)) acc = Some (acc @ map V (v # chain))"
        using o u(2) c(1) vp by (subst backtrace.simps) (simp add: key_id)
      moreover have "\<forall>i. Suc i < length (v # chain) \<longrightarrow>
                        (v # chain) ! i \<in> set (adj ((v # chain) ! Suc i))"
      proof (intro allI impI)
        fix i assume i: "Suc i < length (v # chain)"
        show "(v # chain) ! i \<in> set (adj ((v # chain) ! Suc i))"
        proof (cases i)
          case 0
          with c(2,3) u(3) show ?thesis by (simp add: hd_conv_nth)
        next
          case (Suc j)
          with i c(6) show ?thesis by simp
        qed
      qed
      ultimately show ?thesis using c(2,4,5) less.prems
        by (intro exI[of _ "v # chain"]) simp
    qed
  qed
qed

lemma search_start_inv:
  assumes "start \<in> Vs"
  shows "tree_inv V Vs adj start (search_start V start)"
    and "ghost_inv V Vs (\<lambda>v. []) (search_start V start)"
    and "front_inv V adj endp {} (search_start V start)"
proof -
  have e: "{(v, u). fmlookup (origin (search_start V start)) v = Some (Some (V u))} = {}"
    by (auto simp: search_start_def split: if_splits)
  have a0: "acyclic ({} :: (Point \<times> Point) set)" by (simp add: acyclic_def)
  have "acyclic {(v, u). fmlookup (origin (search_start V start)) v = Some (Some (V u))}"
    unfolding e by (rule a0)
  moreover have "fmdom' (origin (search_start V start)) = fmdom' (costs (search_start V start))"
    "fmdom' (costs (search_start V start)) \<subseteq> Vs"
    "fmlookup (costs (search_start V start)) start = Some 0"
    "fmlookup (origin (search_start V start)) start = Some None"
    "\<forall>v \<in> fmdom' (costs (search_start V start)). 0 \<le> cst (search_start V start) v"
    using assms by (simp_all add: search_start_def cst_def)
  moreover have "\<forall>v u'. fmlookup (origin (search_start V start)) v = Some (Some u') \<longrightarrow>
         v \<noteq> start \<and> (\<exists>u \<in> fmdom' (costs (search_start V start)). u' = V u
             \<and> v \<in> set (adj u) \<and> cst (search_start V start) u \<le> cst (search_start V start) v)"
    by (auto simp: search_start_def split: if_splits)
  moreover have "\<forall>v \<in> fmdom' (costs (search_start V start)). v \<noteq> start \<longrightarrow>
         (\<exists>u'. fmlookup (origin (search_start V start)) v = Some (Some u'))"
    by (simp add: search_start_def)
  ultimately show "tree_inv V Vs adj start (search_start V start)"
    unfolding tree_inv_def by blast
  show "ghost_inv V Vs (\<lambda>v. []) (search_start V start)"
    by (simp add: ghost_inv_def search_start_def cst_def pcost_def)
  show "front_inv V adj endp {} (search_start V start)"
    by (simp add: front_inv_def search_start_def set_pq_insert)
qed

lemma diag_iff:
  "q \<in> set (diag width height p)
     \<longleftrightarrow> inb width height q \<and> \<bar>fst q - fst p\<bar> = 1 \<and> \<bar>snd q - snd p\<bar> = 1"
proof -
  obtain x y where p: "p = (x, y)" by (cases p)
  obtain a b where q: "q = (a, b)" by (cases q)
  have "(a = x + 1 \<or> a = x - 1) \<and> (b = y + 1 \<or> b = y - 1) \<longleftrightarrow> \<bar>a - x\<bar> = 1 \<and> \<bar>b - y\<bar> = 1"
    by auto
  then show ?thesis unfolding diag_def p q by auto
qed

lemma finite_even_cells: "finite (even_cells width height)"
proof -
  have "even_cells width height \<subseteq> {0..width} \<times> {0..height}"
    by (auto simp: even_cells_def inb_def)
  then show ?thesis by (rule finite_subset) simp
qed

lemma diag_even_cells:
  assumes "p \<in> even_cells width height"
  shows "set (diag width height p) \<subseteq> even_cells width height"
proof
  fix q assume "q \<in> set (diag width height p)"
  then have q: "inb width height q" "\<bar>fst q - fst p\<bar> = 1" "\<bar>snd q - snd p\<bar> = 1"
    by (simp_all add: diag_iff)
  from assms have "even (fst p + snd p)" by (simp add: even_cells_def)
  with q(2,3) have "even (fst q + snd q)" by presburger
  with q(1) show "q \<in> even_cells width height" by (simp add: even_cells_def)
qed

lemma graph_ok_new:
  assumes "\<forall>k. 0 \<le> rnd k"
  shows "graph_ok (new_AStar rnd width height) (gvertex rnd width height)
           (even_cells width height) (diag width height)"
  unfolding graph_ok_def
proof (intro conjI allI ballI)
  show "finite (even_cells width height)" by (rule finite_even_cells)
next
  fix p show "vpos (gvertex rnd width height p) = p" by (simp add: gvertex_def)
next
  fix p assume "p \<in> even_cells width height"
  then have "0 \<le> width + height" by (auto simp: even_cells_def inb_def)
  then have "0 \<le> real_of_int (width + height)" by simp
  with assms show "0 \<le> cost (gvertex rnd width height p)" by (simp add: gvertex_def)
next
  fix p assume "p \<in> even_cells width height"
  then show "fmlookup (adjacencies (new_AStar rnd width height)) p
               = Some (map (gvertex rnd width height) (diag width height p))"
    by (simp add: adjacencies_new even_cells_def)
next
  fix p assume "p \<in> even_cells width height"
  then show "set (diag width height p) \<subseteq> even_cells width height" by (rule diag_even_cells)
qed

lemma closed_reaches_origin:
  assumes w: "2 \<le> width" and h: "2 \<le> height"
    and cl: "\<forall>u \<in> D. set (diag width height u) \<subseteq> D"
  shows "p \<in> D \<Longrightarrow> p \<in> even_cells width height \<Longrightarrow> (0, 0) \<in> D"
proof (induction "nat (fst p + snd p)" arbitrary: p rule: less_induct)
  case less
  obtain x y where p: "p = (x, y)" by (cases p)
  from less.prems(2) p have b: "0 \<le> x" "x < width" "0 \<le> y" "y < height" "even (x + y)"
    by (simp_all add: even_cells_def inb_def)
  have step: "q \<in> D" if "u \<in> D" "q \<in> set (diag width height u)" for u q
    using cl that by blast
  show ?case
  proof (cases "x = 0 \<and> y = 0")
    case True
    with less.prems(1) p show ?thesis by simp
  next
    case False
    show ?thesis
    proof (cases "1 \<le> x \<and> 1 \<le> y")
      case True
      let ?q = "(x - 1, y - 1)"
      have "?q \<in> set (diag width height p)" using True b by (simp add: diag_iff p inb_def)
      then have qD: "?q \<in> D" by (rule step[OF less.prems(1)])
      have "?q \<in> even_cells width height" using True b by (simp add: even_cells_def inb_def)
      moreover have "nat (fst ?q + snd ?q) < nat (fst p + snd p)" using True p by simp
      ultimately show ?thesis using less.hyps qD by blast
    next
      case nb: False
      show ?thesis
      proof (cases "x = 0")
        case True
        with False b have y2: "2 \<le> y" by presburger
        let ?m = "(1, y - 1)" and ?q = "(0, y - 2)"
        have "?m \<in> set (diag width height p)" using True y2 b w by (simp add: diag_iff p inb_def)
        then have mD: "?m \<in> D" by (rule step[OF less.prems(1)])
        have "?q \<in> set (diag width height ?m)" using y2 b w by (simp add: diag_iff inb_def)
        then have qD: "?q \<in> D" by (rule step[OF mD])
        have "?q \<in> even_cells width height" using True y2 b w by (simp add: even_cells_def inb_def)
        moreover have "nat (fst ?q + snd ?q) < nat (fst p + snd p)" using True y2 p by simp
        ultimately show ?thesis using less.hyps qD by blast
      next
        case x0: False
        with nb b have y0: "y = 0" by simp
        with x0 b have x2: "2 \<le> x" by presburger
        let ?m = "(x - 1, 1)" and ?q = "(x - 2, 0)"
        have "?m \<in> set (diag width height p)" using y0 x2 b h by (simp add: diag_iff p inb_def)
        then have mD: "?m \<in> D" by (rule step[OF less.prems(1)])
        have "?q \<in> set (diag width height ?m)" using x2 b h by (simp add: diag_iff inb_def)
        then have qD: "?q \<in> D" by (rule step[OF mD])
        have "?q \<in> even_cells width height" using y0 x2 b by (simp add: even_cells_def inb_def)
        moreover have "nat (fst ?q + snd ?q) < nat (fst p + snd p)" using y0 x2 p by simp
        ultimately show ?thesis using less.hyps qD by blast
      qed
    qed
  qed
qed

lemma closed_from_origin:
  assumes w: "2 \<le> width" and h: "2 \<le> height"
    and cl: "\<forall>u \<in> D. set (diag width height u) \<subseteq> D" and o: "(0, 0) \<in> D"
  shows "p \<in> even_cells width height \<Longrightarrow> p \<in> D"
proof (induction "nat (fst p + snd p)" arbitrary: p rule: less_induct)
  case less
  obtain x y where p: "p = (x, y)" by (cases p)
  from less.prems p have b: "0 \<le> x" "x < width" "0 \<le> y" "y < height" "even (x + y)"
    by (simp_all add: even_cells_def inb_def)
  have step: "q \<in> D" if "u \<in> D" "q \<in> set (diag width height u)" for u q
    using cl that by blast
  show ?case
  proof (cases "x = 0 \<and> y = 0")
    case True
    with o p show ?thesis by simp
  next
    case False
    show ?thesis
    proof (cases "1 \<le> x \<and> 1 \<le> y")
      case True
      let ?q = "(x - 1, y - 1)"
      have "?q \<in> even_cells width height" using True b by (simp add: even_cells_def inb_def)
      moreover have "nat (fst ?q + snd ?q) < nat (fst p + snd p)" using True p by simp
      ultimately have qD: "?q \<in> D" using less.hyps by blast
      have "p \<in> set (diag width height ?q)" using True b by (simp add: diag_iff p inb_def)
      then show ?thesis by (rule step[OF qD])
    next
      case nb: False
      show ?thesis
      proof (cases "x = 0")
        case True
        with False b have y2: "2 \<le> y" by presburger
        let ?m = "(1, y - 1)" and ?q = "(0, y - 2)"
        have "?q \<in> even_cells width height" using True y2 b w by (simp add: even_cells_def inb_def)
        moreover have "nat (fst ?q + snd ?q) < nat (fst p + snd p)" using True y2 p by simp
        ultimately have qD: "?q \<in> D" using less.hyps by blast
        have "?m \<in> set (diag width height ?q)" using y2 b w by (simp add: diag_iff inb_def)
        then have mD: "?m \<in> D" by (rule step[OF qD])
        have "p \<in> set (diag width height ?m)" using True y2 b w by (simp add: diag_iff p inb_def)
        then show ?thesis by (rule step[OF mD])
      next
        case x0: False
        with nb b have y0: "y = 0" by simp
        with x0 b have x2: "2 \<le> x" by presburger
        let ?m = "(x - 1, 1)" and ?q = "(x - 2, 0)"
        have "?q \<in> even_cells width height" using y0 x2 b by (simp add: even_cells_def inb_def)
        moreover have "nat (fst ?q + snd ?q) < nat (fst p + snd p)" using y0 x2 p by simp
        ultimately have qD: "?q \<in> D" using less.hyps by blast
        have "?m \<in> set (diag width height ?q)" using x2 b h by (simp add: diag_iff inb_def)
        then have mD: "?m \<in> D" by (rule step[OF qD])
        have "p \<in> set (diag width height ?m)" using y0 x2 b h by (simp add: diag_iff p inb_def)
        then show ?thesis by (rule step[OF mD])
      qed
    qed
  qed
qed

lemma vpos_gvertex: "vpos (gvertex rnd width height p) = p"
  by (simp add: gvertex_def)

lemma getVertex_inb:
  "inb width height p \<Longrightarrow>
     getVertex (new_AStar rnd width height) (fst p) (snd p) = Inr (Some (gvertex rnd width height p))"
  by (simp add: getVertex_new inb_def)

lemma find_search_new:
  assumes "inb width height start" and "inb width height endp"
  shows "find_search (new_AStar rnd width height) start endp
           = find_loop (new_AStar rnd width height) (Some (gvertex rnd width height endp))
               (search_start (gvertex rnd width height) start)"
  using assms
  by (simp add: find_search_def getVertex_inb search_start_def vpos_gvertex key_id)

lemma find_loop_first:
  "find_loop a endV (search_start V start)
     = (if Some (V start) = endV
        then Some (Inr (Break, (search_start V start)\<lparr>frontier := []\<rparr>))
        else (case fmlookup (adjacencies a) (key (vpos (V start))) of
                None \<Rightarrow> Some (Inl TypeError)
              | Some vs \<Rightarrow>
                 (case for_each (relax endV (V start)) vs ((search_start V start)\<lparr>frontier := []\<rparr>) of
                    Inl e \<Rightarrow> Some (Inl e)
                  | Inr s' \<Rightarrow> find_loop a endV s')))"
  by (subst find_loop.simps)
     (simp add: search_start_def pq_insert_def splice_at_def dequeue_def cong: option.case_cong)

lemma AStar_find_same:
  assumes "inb width height p"
  shows "AStar_find (new_AStar rnd width height) p p = Some (Inr [p])"
proof -
  let ?V = "gvertex rnd width height"
  have "find_search (new_AStar rnd width height) p p
          = Some (Inr (Break, (search_start ?V p)\<lparr>frontier := []\<rparr>))"
    using assms by (simp add: find_search_new find_loop_first)
  moreover have "backtrace (origin ((search_start ?V p)\<lparr>frontier := []\<rparr>)) (Some (?V p)) []
                   = Some [?V p]"
    by (subst backtrace.simps, subst backtrace.simps)
       (simp add: search_start_def vpos_gvertex key_id)
  ultimately show ?thesis
    using assms by (simp add: AStar_find_def getVertex_inb vpos_gvertex)
qed

lemma search_even:
  assumes rnd: "\<forall>k. 0 \<le> rnd k"
    and st: "start \<in> even_cells width height"
  shows "\<exists>ex s'. find_loop (new_AStar rnd width height) (Some (gvertex rnd width height endp))
                    (search_start (gvertex rnd width height) start) = Some (Inr (ex, s'))
        \<and> tree_inv (gvertex rnd width height) (even_cells width height) (diag width height) start s'
        \<and> (ex = Exhausted \<longrightarrow>
              (\<forall>u \<in> fmdom' (costs s'). set (diag width height u) \<subseteq> fmdom' (costs s'))
              \<and> endp \<notin> fmdom' (costs s'))
        \<and> (ex = Break \<longrightarrow> endp \<in> fmdom' (costs s'))"
  by (rule find_loop_total[OF graph_ok_new[OF rnd] search_start_inv[OF st]])

lemma tree_inv_start: "tree_inv V Vs adj start s \<Longrightarrow> start \<in> fmdom' (costs s)"
  by (simp add: tree_inv_def in_fmdom'_lookup)

lemma tree_inv_origin_dom: "tree_inv V Vs adj start s \<Longrightarrow> fmdom' (origin s) = fmdom' (costs s)"
  by (simp add: tree_inv_def)

lemma AStar_find_connected:
  assumes rnd: "\<forall>k. 0 \<le> rnd k"
    and w: "2 \<le> width" and h: "2 \<le> height"
    and st: "start \<in> even_cells width height" and en: "endp \<in> even_cells width height"
  shows "\<exists>path. AStar_find (new_AStar rnd width height) start endp = Some (Inr path)
           \<and> path \<noteq> [] \<and> hd path = start \<and> last path = endp
           \<and> (\<forall>i. Suc i < length path \<longrightarrow> path ! Suc i \<in> set (diag width height (path ! i)))
           \<and> set path \<subseteq> even_cells width height"
proof -
  let ?V = "gvertex rnd width height" and ?a = "new_AStar rnd width height"
  from st en have ib: "inb width height start" "inb width height endp"
    by (simp_all add: even_cells_def)
  from search_even[OF rnd st, of endp] obtain ex s' where
    r: "find_loop ?a (Some (?V endp)) (search_start ?V start) = Some (Inr (ex, s'))"
    and t: "tree_inv ?V (even_cells width height) (diag width height) start s'"
    and exh: "ex = Exhausted \<longrightarrow>
              (\<forall>u \<in> fmdom' (costs s'). set (diag width height u) \<subseteq> fmdom' (costs s'))
              \<and> endp \<notin> fmdom' (costs s')"
    and brk: "ex = Break \<longrightarrow> endp \<in> fmdom' (costs s')" by blast
  have reached: "endp \<in> fmdom' (costs s')"
  proof (cases ex)
    case Break
    with brk show ?thesis by simp
  next
    case Exhausted
    with exh have cl: "\<forall>u \<in> fmdom' (costs s'). set (diag width height u) \<subseteq> fmdom' (costs s')"
      and no: "endp \<notin> fmdom' (costs s')" by simp_all
    have "(0, 0) \<in> fmdom' (costs s')"
      by (rule closed_reaches_origin[OF w h cl tree_inv_start[OF t] st])
    then have "endp \<in> fmdom' (costs s')"
      by (rule closed_from_origin[OF w h cl _ en])
    with no show ?thesis by simp
  qed
  from backtrace_chain[OF vpos_gvertex t reached, of "[]"] obtain chain where
    c: "backtrace (origin s') (Some (?V endp)) [] = Some (map ?V chain)"
    "chain \<noteq> []" "hd chain = endp" "last chain = start" "set chain \<subseteq> fmdom' (costs s')"
    "\<forall>i. Suc i < length chain \<longrightarrow> chain ! i \<in> set (diag width height (chain ! Suc i))"
    by auto
  have vm: "map vpos (rev (map ?V chain)) = rev chain"
    by (simp add: rev_map comp_def vpos_gvertex)
  have res: "AStar_find ?a start endp = Some (Inr (rev chain))"
    using ib r c(1) vm by (simp add: AStar_find_def find_search_new getVertex_inb)
  have steps: "\<forall>i. Suc i < length (rev chain) \<longrightarrow>
                  rev chain ! Suc i \<in> set (diag width height (rev chain ! i))"
  proof (intro allI impI)
    fix i assume i: "Suc i < length (rev chain)"
    then have i': "Suc i < length chain" by simp
    let ?j = "length chain - Suc (Suc i)"
    have j: "Suc ?j < length chain" using i' by simp
    have "rev chain ! Suc i = chain ! ?j" using i' by (simp add: rev_nth)
    moreover have "rev chain ! i = chain ! Suc ?j"
      using i' by (simp add: rev_nth Suc_diff_Suc)
    ultimately show "rev chain ! Suc i \<in> set (diag width height (rev chain ! i))"
      using c(6) j by simp
  qed
  from t have "fmdom' (costs s') \<subseteq> even_cells width height" by (simp add: tree_inv_def)
  with c(5) have sub: "set (rev chain) \<subseteq> even_cells width height" by simp
  show ?thesis
    using res c(2,3,4) steps sub
    by (intro exI[of _ "rev chain"]) (simp add: hd_rev last_rev)
qed

lemma AStar_find_exhausted_even:
  assumes rnd: "\<forall>k. 0 \<le> rnd k"
    and st: "start \<in> even_cells width height" and en: "inb width height endp"
    and ex: "find_search (new_AStar rnd width height) start endp = Some (Inr (Exhausted, s))"
  shows "AStar_find (new_AStar rnd width height) start endp = Some (Inr [endp]) \<and> start \<noteq> endp"
proof -
  let ?V = "gvertex rnd width height" and ?a = "new_AStar rnd width height"
  from st have ib: "inb width height start" by (simp add: even_cells_def)
  from search_even[OF rnd st, of endp] ex ib en obtain
    t: "tree_inv ?V (even_cells width height) (diag width height) start s"
    and no: "endp \<notin> fmdom' (costs s)"
    by (auto simp: find_search_new)
  from no tree_inv_start[OF t] have ne: "start \<noteq> endp" by auto
  from no tree_inv_origin_dom[OF t] have "fmlookup (origin s) endp = None"
    by (metis fmdom'_notD)
  then have "backtrace (origin s) (Some (?V endp)) [] = Some [?V endp]"
    by (subst backtrace.simps, subst backtrace.simps) (simp add: vpos_gvertex key_id)
  then show ?thesis
    using ex en ne by (simp add: AStar_find_def getVertex_inb vpos_gvertex)
qed

lemmas astar_eval = AStar_find_def find_search_def getVertex_def new_AStar_def
  generateAdjacencies_def relax_def manhattanDistance_def key_def Let_def dequeue_def
  pq_insert_def splice_at_def range_by2.simps find_loop.simps backtrace.simps

lemma find_search_row:
  "find_search (new_AStar (\<lambda>k. 1 / 2) 3 1) (0, 0) (2, 0)
     = Some (Inr (Exhausted, \<lparr>frontier = [], costs = fmupd (0, 0) 0 fmempty,
                               origin = fmupd (0, 0) None fmempty\<rparr>))"
  by (simp add: astar_eval)

lemma search_odd:
  assumes ib: "inb width height start" and odd: "odd (fst start + snd start)"
  shows "find_loop (new_AStar rnd width height) endV (search_start (gvertex rnd width height) start)
           \<noteq> Some (Inr (Exhausted, s))"
  using assms by (simp add: find_loop_first adjacencies_new vpos_gvertex key_id)

text \<open>
  Claim C2, as stated, fails in two ways. Only the cells with both coordinates even or
  both odd get an adjacency entry, so a search from a cell with an odd coordinate sum
  reads \<open>adjacencies[current.key()]\<close> as \<open>undefined\<close> and the \<open>for ... of\<close> loop throws. And
  on a grid one cell wide or high no cell has a diagonal neighbour: the search from
  \<open>(0,0)\<close> to \<open>(2,0)\<close> gives up and the result does not begin at the start.
\<close>

theorem AStar_find_parity_counterexample:
  "inb 2 2 (0, 1) \<and> inb 2 2 (1, 0) \<and> ((0::int) + 1) mod 2 = ((1::int) + 0) mod 2
     \<and> AStar_find (new_AStar (\<lambda>k. 1 / 2) 2 2) (0, 1) (1, 0) = Some (Inl TypeError)
     \<and> inb 3 1 (0, 0) \<and> inb 3 1 (2, 0) \<and> ((0::int) + 0) mod 2 = ((2::int) + 0) mod 2
     \<and> AStar_find (new_AStar (\<lambda>k. 1 / 2) 3 1) (0, 0) (2, 0) = Some (Inr [(2, 0)])"
  by (simp add: astar_eval inb_def)

text \<open>
  Claim C2, amended. With costs that are not negative (\<open>Math.random()\<close> is in \<open>[0, 1)\<close>),
  start and end within bounds, and either start equal to end, or a grid at least two
  cells wide and high and both coordinate sums even: \<open>find\<close> returns a sequence that
  begins at start, ends at end, moves by \<open>(\<plusminus>1, \<plusminus>1)\<close> at every step and stays
  within bounds.
\<close>

theorem AStar_find_path:
  assumes "\<forall>k. 0 \<le> rnd k"
    and "inb width height start" and "inb width height endp"
    and "start = endp \<or> (2 \<le> width \<and> 2 \<le> height
            \<and> even (fst start + snd start) \<and> even (fst endp + snd endp))"
  shows "\<exists>path. AStar_find (new_AStar rnd width height) start endp = Some (Inr path)
           \<and> path \<noteq> [] \<and> hd path = start \<and> last path = endp
           \<and> (\<forall>i. Suc i < length path \<longrightarrow>
                  \<bar>fst (path ! Suc i) - fst (path ! i)\<bar> = 1
                \<and> \<bar>snd (path ! Suc i) - snd (path ! i)\<bar> = 1)
           \<and> (\<forall>p \<in> set path. inb width height p)"
proof (cases "start = endp")
  case True
  with assms(2) have "AStar_find (new_AStar rnd width height) start endp = Some (Inr [start])"
    by (simp add: AStar_find_same)
  with True assms(2) show ?thesis by simp
next
  case False
  with assms have w: "2 \<le> width" and h: "2 \<le> height"
    and st: "start \<in> even_cells width height" and en: "endp \<in> even_cells width height"
    by (simp_all add: even_cells_def)
  from AStar_find_connected[OF assms(1) w h st en] obtain path where
    p: "AStar_find (new_AStar rnd width height) start endp = Some (Inr path)"
    "path \<noteq> []" "hd path = start" "last path = endp"
    "\<forall>i. Suc i < length path \<longrightarrow> path ! Suc i \<in> set (diag width height (path ! i))"
    "set path \<subseteq> even_cells width height" by blast
  from p(5) have "\<forall>i. Suc i < length path \<longrightarrow>
                  \<bar>fst (path ! Suc i) - fst (path ! i)\<bar> = 1
                \<and> \<bar>snd (path ! Suc i) - snd (path ! i)\<bar> = 1"
    by (simp add: diag_iff)
  moreover from p(6) have "\<forall>p \<in> set path. inb width height p"
    by (auto simp: even_cells_def)
  ultimately show ?thesis using p(1-4) by blast
qed

theorem AStar_find_path_witness:
  "\<exists>path. AStar_find (new_AStar (\<lambda>k. 1 / 2) 3 3) (0, 0) (2, 2) = Some (Inr path)
           \<and> path \<noteq> [] \<and> hd path = (0, 0) \<and> last path = (2, 2)
           \<and> (\<forall>i. Suc i < length path \<longrightarrow>
                  \<bar>fst (path ! Suc i) - fst (path ! i)\<bar> = 1
                \<and> \<bar>snd (path ! Suc i) - snd (path ! i)\<bar> = 1)
           \<and> (\<forall>p \<in> set path. inb 3 3 p)"
  using AStar_find_path[of "\<lambda>k. 1 / 2" 3 3 "(0, 0)" "(2, 2)"] by (simp add: inb_def)

text \<open>
  Claim C3, as stated, on the grid of one column and two rows: the search from \<open>(0,0)\<close>
  to \<open>(0,1)\<close> empties the frontier without popping the end vertex, and the result is the
  end point alone, a sequence that does terminate at the requested end coordinate. The
  walk back starts at the end vertex, not at the last popped vertex.
\<close>

theorem AStar_find_exhausted_counterexample:
  "(\<exists>s. find_search (new_AStar (\<lambda>k. 1 / 2) 1 2) (0, 0) (0, 1) = Some (Inr (Exhausted, s)))
     \<and> AStar_find (new_AStar (\<lambda>k. 1 / 2) 1 2) (0, 0) (0, 1) = Some (Inr [(0, 1)])
     \<and> last [(0, 1)] = ((0, 1) :: Point)"
  by (simp add: astar_eval)

text \<open>
  Claim C3, amended. Whenever the loop of \<open>find\<close> ends because the frontier is empty, the
  result is the end point alone (the empty sequence when the end point has no vertex,
  being below or above its column), and the end point is not the start: an incomplete
  path is told from a complete one by its first point, which is not the start.
\<close>

theorem AStar_find_exhausted:
  assumes "\<forall>k. 0 \<le> rnd k"
    and "find_search (new_AStar rnd width height) start endp = Some (Inr (Exhausted, s))"
  shows "AStar_find (new_AStar rnd width height) start endp
           = Some (Inr (if inb width height endp then [endp] else []))
         \<and> start \<noteq> endp"
proof -
  let ?a = "new_AStar rnd width height" and ?V = "gvertex rnd width height"
  from assms(2) have ib: "inb width height start"
    by (auto simp: find_search_def getVertex_new inb_def split: if_splits)
  from assms(2) have ex: "0 \<le> fst endp \<and> fst endp < width"
    by (auto simp: find_search_def getVertex_new split: if_splits)
  show ?thesis
  proof (cases "inb width height endp")
    case True
    with assms(2) ib have fl: "find_loop ?a (Some (?V endp)) (search_start ?V start)
                                 = Some (Inr (Exhausted, s))"
      by (simp add: find_search_new)
    have "even (fst start + snd start)"
      using search_odd[OF ib, of rnd "Some (?V endp)" s] fl by blast
    with ib have "start \<in> even_cells width height" by (simp add: even_cells_def)
    from AStar_find_exhausted_even[OF assms(1) this True assms(2)] True show ?thesis by simp
  next
    case False
    with ex have ev: "getVertex ?a (fst endp) (snd endp) = Inr None"
      by (auto simp: getVertex_new inb_def)
    with assms(2) ib have fl: "find_loop ?a None (search_start ?V start) = Some (Inr (Exhausted, s))"
      by (simp add: find_search_def getVertex_inb search_start_def vpos_gvertex key_id)
    have "even (fst start + snd start)"
      using search_odd[OF ib, of rnd None s] fl by blast
    with ib have "start \<in> even_cells width height" by (simp add: even_cells_def)
    have "backtrace (origin s) None [] = Some []"
      by (subst backtrace.simps) simp
    with assms(2) ev have "AStar_find ?a start endp = Some (Inr [])"
      by (simp add: AStar_find_def)
    moreover from ib False have "start \<noteq> endp" by auto
    ultimately show ?thesis using False by simp
  qed
qed

theorem AStar_find_exhausted_witness:
  "AStar_find (new_AStar (\<lambda>k. 1 / 2) 3 1) (0, 0) (2, 0)
           = Some (Inr (if inb 3 1 (2, 0) then [(2, 0)] else []))
         \<and> (0, 0) \<noteq> ((2, 0) :: Point)"
  using AStar_find_exhausted[of "\<lambda>k. 1 / 2" 3 1 "(0, 0)" "(2, 0)", OF _ find_search_row]
  by simp

section \<open>Properties of graph building (nodesFromTransitions)\<close>

lemma parent_relI: "fmlookup m c = Some n \<Longrightarrow> p \<in> set (parents n) \<Longrightarrow> (c, p) \<in> parent_rel m"
  unfolding parent_rel_def by blast

lemma parent_relD: "(c, p) \<in> parent_rel m \<Longrightarrow> \<exists>n. fmlookup m c = Some n \<and> p \<in> set (parents n)"
  unfolding parent_rel_def by blast

lemma ancestors_subset_dom:
  assumes "linked_nodes m"
  shows "ancestors m k \<subseteq> fmdom' m"
proof
  fix a assume "a \<in> ancestors m k"
  then have "(k, a) \<in> (parent_rel m)\<^sup>+" by (simp add: ancestors_def)
  then obtain b where "(b, a) \<in> parent_rel m" by (meson tranclE)
  with assms show "a \<in> fmdom' m" unfolding linked_nodes_def by blast
qed

lemma finite_ancestors: "linked_nodes m \<Longrightarrow> finite (ancestors m k)"
  by (rule finite_subset[OF ancestors_subset_dom]) simp_all

lemma ancestors_unfold:
  "a \<in> ancestors m k \<longleftrightarrow> (\<exists>p. (k, p) \<in> parent_rel m \<and> (p = a \<or> a \<in> ancestors m p))"
  unfolding ancestors_def mem_Collect_eq
  by (metis converse_tranclE trancl.r_into_trancl trancl_into_trancl2)

lemma not_own_ancestor: "linked_nodes m \<Longrightarrow> k \<notin> ancestors m k"
  unfolding linked_nodes_def ancestors_def acyclic_def by blast

lemma ancestors_parent_less:
  assumes l: "linked_nodes m" and p: "(k, p) \<in> parent_rel m"
  shows "card (ancestors m p) < card (ancestors m k)"
proof -
  have "ancestors m p \<subseteq> ancestors m k"
    using p unfolding ancestors_def by (meson Collect_mono trancl_into_trancl2)
  moreover have "p \<in> ancestors m k" using p unfolding ancestors_def by blast
  moreover have "p \<notin> ancestors m p" by (rule not_own_ancestor[OF l])
  ultimately have "ancestors m p \<subset> ancestors m k" by blast
  then show ?thesis by (rule psubset_card_mono[OF finite_ancestors[OF l]])
qed

lemma hasAncestor_depth_correct:
  shows "linked_nodes m \<Longrightarrow> self \<in> fmdom' m \<Longrightarrow> card (ancestors m self) < d \<Longrightarrow>
           hasAncestor_depth d m self k = Inr (k \<in> ancestors m self)"
    and "linked_nodes m \<Longrightarrow> set ps \<subseteq> fmdom' m \<Longrightarrow>
           \<forall>p \<in> set ps. card (ancestors m p) < d \<Longrightarrow>
           hasAncestor_loop d m ps k = Inr (\<exists>p \<in> set ps. p = k \<or> k \<in> ancestors m p)"
proof (induction d m self k and d m ps k rule: hasAncestor_depth_hasAncestor_loop.induct)
  case (1 nodes self k)
  then show ?case by simp
next
  case (2 d nodes self k)
  from 2(3) obtain n where n: "fmlookup nodes self = Some n" by (auto simp: in_fmdom'_lookup)
  have l': "linked_nodes nodes" by (rule 2(2))
  have pr: "(self, p) \<in> parent_rel nodes" if "p \<in> set (parents n)" for p
    using n that by (rule parent_relI)
  have sub: "set (parents n) \<subseteq> fmdom' nodes"
    using pr l' unfolding linked_nodes_def by blast
  have cd: "\<forall>p \<in> set (parents n). card (ancestors nodes p) < d"
    using ancestors_parent_less[OF l' pr] 2(4) by fastforce
  have "hasAncestor_loop d nodes (parents n) k
          = Inr (\<exists>p \<in> set (parents n). p = k \<or> k \<in> ancestors nodes p)"
    by (rule 2(1)[OF n l' sub cd])
  moreover have "(\<exists>p \<in> set (parents n). p = k \<or> k \<in> ancestors nodes p) \<longleftrightarrow> k \<in> ancestors nodes self"
  proof
    assume "\<exists>p \<in> set (parents n). p = k \<or> k \<in> ancestors nodes p"
    then obtain p where "p \<in> set (parents n)" "p = k \<or> k \<in> ancestors nodes p" by blast
    with pr show "k \<in> ancestors nodes self" by (subst ancestors_unfold) blast
  next
    assume "k \<in> ancestors nodes self"
    then obtain p where p: "(self, p) \<in> parent_rel nodes" "p = k \<or> k \<in> ancestors nodes p"
      by (subst (asm) ancestors_unfold) blast
    from parent_relD[OF p(1)] n have "p \<in> set (parents n)" by simp
    with p(2) show "\<exists>p \<in> set (parents n). p = k \<or> k \<in> ancestors nodes p" by blast
  qed
  ultimately show ?case using n by simp
next
  case (3 d nodes k)
  then show ?case by simp
next
  case (4 d nodes p ps k)
  show ?case
  proof (cases "p = k")
    case True
    then show ?thesis by simp
  next
    case False
    from 4(4,5) have p: "p \<in> fmdom' nodes" "card (ancestors nodes p) < d" by simp_all
    have hp: "hasAncestor_depth d nodes p k = Inr (k \<in> ancestors nodes p)"
      by (rule 4(1)[OF False 4(3) p])
    show ?thesis
    proof (cases "k \<in> ancestors nodes p")
      case True
      with hp False show ?thesis by simp
    next
      case nk: False
      from 4(4,5) have ps: "set ps \<subseteq> fmdom' nodes" "\<forall>p \<in> set ps. card (ancestors nodes p) < d"
        by simp_all
      have "hasAncestor_loop d nodes ps k = Inr (\<exists>p \<in> set ps. p = k \<or> k \<in> ancestors nodes p)"
        using hp nk by (intro 4(2)[OF False _ _ 4(3) ps]) simp_all
      with hp nk False show ?thesis by simp
    qed
  qed
qed

lemma card_ancestors_le:
  assumes "linked_nodes m"
  shows "card (ancestors m k) < Suc (fcard (fmdom m))"
proof -
  have "card (ancestors m k) \<le> card (fmdom' m)"
    by (rule card_mono[OF _ ancestors_subset_dom[OF assms]]) simp
  then show ?thesis by (simp add: fmdom'_alt_def fcard.rep_eq)
qed

lemma hasAncestor_correct:
  assumes "linked_nodes m" and "self \<in> fmdom' m"
  shows "hasAncestor m self k = Inr (k \<in> ancestors m self)"
  unfolding hasAncestor_def
  by (rule hasAncestor_depth_correct(1)[OF assms card_ancestors_le[OF assms(1)]])

lemma getAncestors_depth_correct:
  shows "linked_nodes m \<Longrightarrow> self \<in> fmdom' m \<Longrightarrow> card (ancestors m self) < d \<Longrightarrow>
           \<exists>ks. getAncestors_depth d m self = Inr ks \<and> set ks = ancestors m self"
    and "linked_nodes m \<Longrightarrow> set ps \<subseteq> fmdom' m \<Longrightarrow>
           \<forall>p \<in> set ps. card (ancestors m p) < d \<Longrightarrow>
           \<exists>ks. getAncestors_loop d m ps acc = Inr ks
              \<and> set ks = set acc \<union> set ps \<union> (\<Union>p \<in> set ps. ancestors m p)"
proof (induction d m self and d m ps acc rule: getAncestors_depth_getAncestors_loop.induct)
  case (1 nodes self)
  then show ?case by simp
next
  case (2 d nodes self)
  from 2(3) obtain n where n: "fmlookup nodes self = Some n" by (auto simp: in_fmdom'_lookup)
  have l': "linked_nodes nodes" by (rule 2(2))
  have pr: "(self, p) \<in> parent_rel nodes" if "p \<in> set (parents n)" for p
    using n that by (rule parent_relI)
  have sub: "set (parents n) \<subseteq> fmdom' nodes"
    using pr l' unfolding linked_nodes_def by blast
  have cd: "\<forall>p \<in> set (parents n). card (ancestors nodes p) < d"
    using ancestors_parent_less[OF l' pr] 2(4) by fastforce
  from 2(1)[OF n l' sub cd] obtain ks where
    ks: "getAncestors_loop d nodes (parents n) [] = Inr ks"
        "set ks = set [] \<union> set (parents n) \<union> (\<Union>p \<in> set (parents n). ancestors nodes p)"
    by blast
  have "set ks = ancestors nodes self"
  proof (rule set_eqI)
    fix a
    have "a \<in> ancestors nodes self
            \<longleftrightarrow> (\<exists>p. (self, p) \<in> parent_rel nodes \<and> (p = a \<or> a \<in> ancestors nodes p))"
      by (rule ancestors_unfold)
    also have "\<dots> \<longleftrightarrow> (\<exists>p \<in> set (parents n). p = a \<or> a \<in> ancestors nodes p)"
      using pr parent_relD n by (metis option.inject)
    also have "\<dots> \<longleftrightarrow> a \<in> set ks" unfolding ks(2) by auto
    finally show "a \<in> set ks \<longleftrightarrow> a \<in> ancestors nodes self" by simp
  qed
  with ks(1) n show ?case by simp
next
  case (3 d nodes ancestorKeys)
  then show ?case by simp
next
  case (4 d nodes p ps ancestorKeys)
  from 4(4,5) have p: "p \<in> fmdom' nodes" "card (ancestors nodes p) < d" by simp_all
  from 4(1)[OF 4(3) p] obtain ks where
    ks: "getAncestors_depth d nodes p = Inr ks" "set ks = ancestors nodes p" by blast
  from 4(4,5) have ps: "set ps \<subseteq> fmdom' nodes" "\<forall>p \<in> set ps. card (ancestors nodes p) < d"
    by simp_all
  from 4(2)[OF ks(1) 4(3) ps] obtain ks' where
    ks': "getAncestors_loop d nodes ps (ancestorKeys @ p # ks) = Inr ks'"
      "set ks' = set (ancestorKeys @ p # ks) \<union> set ps \<union> (\<Union>p \<in> set ps. ancestors nodes p)"
    by blast
  have "set ks' = set ancestorKeys \<union> set (p # ps) \<union> (\<Union>p \<in> set (p # ps). ancestors nodes p)"
    unfolding ks'(2) using ks(2) by auto
  with ks ks'(1) show ?case by simp
qed

lemma getAncestors_correct:
  assumes "linked_nodes m" and "self \<in> fmdom' m"
  shows "\<exists>ks. getAncestors m self = Inr ks \<and> set ks = ancestors m self"
  unfolding getAncestors_def
  by (rule getAncestors_depth_correct(1)[OF assms card_ancestors_le[OF assms(1)]])

lemma fmlookup_modify:
  "fmlookup (modify k f m) x = (if x = k then map_option f (fmlookup m k) else fmlookup m x)"
  by (simp add: modify_def split: option.splits)

lemma fmdom'_modify: "fmdom' (modify k f m) = fmdom' m"
  by (auto simp: modify_def fmdom'I in_fmdom'_lookup split: option.splits if_splits)

lemma addParent_simps:
  "set (parents (addParent p n)) = insert p (set (parents n))"
  "children (addParent p n) = children n"
  by (auto simp: addParent_def)

lemma addChild_simps:
  "set (children (addChild c n)) = insert c (set (children n))"
  "parents (addChild c n) = parents n"
  by (auto simp: addChild_def)

lemma addParent_fields:
  "distSinceFight (addParent p n) = distSinceFight n" "isBoss (addParent p n) = isBoss n"
  by (simp_all add: addParent_def)

lemma addChild_fields:
  "distSinceFight (addChild c n) = distSinceFight n" "isBoss (addChild c n) = isBoss n"
  by (simp_all add: addChild_def)

lemma fmdom'_link: "fmdom' (link ck t m) = fmdom' m"
  by (simp add: link_def fmdom'_modify)

lemma parents_link:
  assumes "fmlookup (link ck t m) x = Some n'"
  shows "\<exists>n. fmlookup m x = Some n
            \<and> set (parents n') = (if x = t then insert ck (set (parents n)) else set (parents n))
            \<and> set (children n') = (if x = ck then insert t (set (children n)) else set (children n))
            \<and> distSinceFight n' = distSinceFight n \<and> isBoss n' = isBoss n"
  using assms
  by (auto simp: link_def fmlookup_modify addParent_simps addChild_simps addParent_fields
           addChild_fields split: if_splits)

lemma link_lookup_dom:
  assumes "fmlookup m x = Some n"
  shows "\<exists>n'. fmlookup (link ck t m) x = Some n'"
  using assms by (auto simp: link_def fmlookup_modify)

lemma parent_rel_link:
  assumes "t \<in> fmdom' m"
  shows "parent_rel (link ck t m) = insert (t, ck) (parent_rel m)"
proof (rule set_eqI)
  fix z :: "key \<times> key"
  obtain c p where z: "z = (c, p)" by (cases z)
  show "z \<in> parent_rel (link ck t m) \<longleftrightarrow> z \<in> insert (t, ck) (parent_rel m)"
  proof
    assume "z \<in> parent_rel (link ck t m)"
    with z obtain n' where n': "fmlookup (link ck t m) c = Some n'" "p \<in> set (parents n')"
      using parent_relD by blast
    from parents_link[OF n'(1)] obtain n where
      n: "fmlookup m c = Some n"
         "set (parents n') = (if c = t then insert ck (set (parents n)) else set (parents n))"
      by blast
    show "z \<in> insert (t, ck) (parent_rel m)"
    proof (cases "c = t \<and> p = ck")
      case True
      with z show ?thesis by simp
    next
      case False
      with n'(2) n(2) have "p \<in> set (parents n)" by (auto split: if_splits)
      with n(1) have "(c, p) \<in> parent_rel m" by (rule parent_relI)
      with z show ?thesis by simp
    qed
  next
    assume a: "z \<in> insert (t, ck) (parent_rel m)"
    show "z \<in> parent_rel (link ck t m)"
    proof (cases "z = (t, ck)")
      case True
      from assms obtain n where n: "fmlookup m t = Some n" by (auto simp: in_fmdom'_lookup)
      from link_lookup_dom[OF n] obtain n' where n': "fmlookup (link ck t m) t = Some n'" by blast
      from parents_link[OF n'] have "ck \<in> set (parents n')" by auto
      with n' have "(t, ck) \<in> parent_rel (link ck t m)" by (rule parent_relI)
      with True show ?thesis by simp
    next
      case False
      with a z have "(c, p) \<in> parent_rel m" by blast
      then obtain n where n: "fmlookup m c = Some n" "p \<in> set (parents n)"
        using parent_relD by blast
      from link_lookup_dom[OF n(1)] obtain n' where n': "fmlookup (link ck t m) c = Some n'" by blast
      from parents_link[OF n'] n have "p \<in> set (parents n')" by (auto split: if_splits)
      with n' have "(c, p) \<in> parent_rel (link ck t m)" by (rule parent_relI)
      with z show ?thesis by simp
    qed
  qed
qed

lemma parent_rel_new:
  assumes "fmlookup m t = None"
  shows "parent_rel (fmupd t (new_MapNode p) m) = parent_rel m"
proof (rule set_eqI)
  fix z :: "key \<times> key"
  obtain c a where z: "z = (c, a)" by (cases z)
  show "z \<in> parent_rel (fmupd t (new_MapNode p) m) \<longleftrightarrow> z \<in> parent_rel m"
    unfolding z parent_rel_def using assms
    by (auto simp: new_MapNode_def split: if_splits)
qed

lemma reaches_weaken: "reaches tr s e h \<Longrightarrow> reaches tr s e []"
  unfolding reaches_def by auto

lemma build_inv_new:
  assumes inv: "build_inv tr e U m" and t: "fmlookup m t = None" and u: "t \<in> U"
  shows "build_inv tr e U (fmupd t (new_MapNode p) m)"
proof -
  let ?m = "fmupd t (new_MapNode p) m"
  have pr: "parent_rel ?m = parent_rel m" by (rule parent_rel_new[OF t])
  from inv have l: "linked_nodes m" and d: "fmdom' m \<subseteq> U"
    and ch: "\<forall>p n c. fmlookup m p = Some n \<longrightarrow> (c \<in> set (children n) \<longleftrightarrow> (c, p) \<in> parent_rel m)"
    and rt: "\<forall>c p. (c, p) \<in> parent_rel m \<longrightarrow> neighbour tr p c \<and> reaches tr c e []"
    unfolding build_inv_def by blast+
  from t have tn: "t \<notin> fmdom' m" by (simp add: fmdom'_notI)
  have "linked_nodes ?m"
    using l unfolding linked_nodes_def pr by auto
  moreover have "fmdom' ?m \<subseteq> U" using d u by simp
  moreover have "\<forall>q n c. fmlookup ?m q = Some n \<longrightarrow> (c \<in> set (children n) \<longleftrightarrow> (c, q) \<in> parent_rel ?m)"
  proof (intro allI impI)
    fix q n c assume a: "fmlookup ?m q = Some n"
    show "c \<in> set (children n) \<longleftrightarrow> (c, q) \<in> parent_rel ?m"
    proof (cases "q = t")
      case True
      with a have "children n = []" by (auto simp: new_MapNode_def)
      moreover have "(c, t) \<notin> parent_rel m"
        using l tn unfolding linked_nodes_def by blast
      ultimately show ?thesis using True pr by simp
    next
      case False
      with a have "fmlookup m q = Some n" by simp
      with ch have "c \<in> set (children n) \<longleftrightarrow> (c, q) \<in> parent_rel m" by blast
      then show ?thesis unfolding pr .
    qed
  qed
  ultimately show ?thesis using rt unfolding build_inv_def pr by blast
qed

lemma build_inv_link:
  assumes inv: "build_inv tr e U m" and t: "t \<in> fmdom' m" and c: "ck \<in> fmdom' m"
    and ne: "t \<noteq> ck" and na: "t \<notin> ancestors m ck"
    and nb: "neighbour tr ck t" and re: "reaches tr t e []"
  shows "build_inv tr e U (link ck t m)"
proof -
  let ?m = "link ck t m"
  have pr: "parent_rel ?m = insert (t, ck) (parent_rel m)" by (rule parent_rel_link[OF t])
  from inv have l: "linked_nodes m" and d: "fmdom' m \<subseteq> U"
    and ch: "\<forall>p n c. fmlookup m p = Some n \<longrightarrow> (c \<in> set (children n) \<longleftrightarrow> (c, p) \<in> parent_rel m)"
    and rt: "\<forall>c p. (c, p) \<in> parent_rel m \<longrightarrow> neighbour tr p c \<and> reaches tr c e []"
    unfolding build_inv_def by blast+
  from l have sub: "parent_rel m \<subseteq> fmdom' m \<times> fmdom' m" and acy: "acyclic (parent_rel m)"
    unfolding linked_nodes_def by blast+
  have "(ck, t) \<notin> (parent_rel m)\<^sup>*"
  proof
    assume "(ck, t) \<in> (parent_rel m)\<^sup>*"
    then have "ck = t \<or> (ck, t) \<in> (parent_rel m)\<^sup>+" by (auto simp: rtrancl_eq_or_trancl)
    with ne na show False by (auto simp: ancestors_def)
  qed
  with acy have "acyclic (insert (t, ck) (parent_rel m))" by (simp add: acyclic_insert)
  moreover have "insert (t, ck) (parent_rel m) \<subseteq> fmdom' m \<times> fmdom' m"
    using sub t c by simp
  ultimately have "linked_nodes ?m"
    unfolding linked_nodes_def pr fmdom'_link by simp
  moreover have "fmdom' ?m \<subseteq> U" using d by (simp add: fmdom'_link)
  moreover have "\<forall>q n x. fmlookup ?m q = Some n \<longrightarrow> (x \<in> set (children n) \<longleftrightarrow> (x, q) \<in> parent_rel ?m)"
  proof (intro allI impI)
    fix q n' x assume a: "fmlookup ?m q = Some n'"
    from parents_link[OF a] obtain n where n: "fmlookup m q = Some n"
      "set (children n') = (if q = ck then insert t (set (children n)) else set (children n))"
      by blast
    from ch n(1) have "x \<in> set (children n) \<longleftrightarrow> (x, q) \<in> parent_rel m" by blast
    with n(2) show "x \<in> set (children n') \<longleftrightarrow> (x, q) \<in> parent_rel ?m"
      unfolding pr by (cases "q = ck") auto
  qed
  moreover have "\<forall>x q. (x, q) \<in> parent_rel ?m \<longrightarrow> neighbour tr q x \<and> reaches tr x e []"
    unfolding pr using rt nb re by auto
  ultimately show ?thesis unfolding build_inv_def by blast
qed

lemma build_inv_linked: "build_inv tr e U m \<Longrightarrow> linked_nodes m"
  by (simp add: build_inv_def)

lemma visitTransition_step:
  assumes ct: "closed_table tr" and lf: "loop_free tr" and tu: "fmdom' tr \<subseteq> U"
    and inv: "build_inv tr (key endp) U m" and ckd: "ck \<in> fmdom' m"
    and nb: "neighbour tr ck (key t)"
  shows "\<exists>m' q'. visitTransition endp tr ck t (m, q) = Inr (m', q')
           \<and> build_inv tr (key endp) U m' \<and> fmdom' m \<subseteq> fmdom' m'
           \<and> parent_rel m \<subseteq> parent_rel m' \<and> key t \<in> fmdom' m'
           \<and> (q' = q \<or> (q' = q @ [t] \<and> (key t, ck) \<in> parent_rel m'))"
proof -
  define m1 where "m1 = (case fmlookup m (key t) of
                           None \<Rightarrow> fmupd (key t) (new_MapNode t) m | Some n \<Rightarrow> m)"
  from nb obtain ps where ps: "fmlookup tr ck = Some ps" "key t \<in> key ` set ps"
    unfolding neighbour_def by (cases "fmlookup tr ck") simp_all
  then obtain p where p: "p \<in> set ps" "key p = key t" by (metis image_iff)
  from ct ps(1) p(1) have "key p \<in> fmdom' tr" unfolding closed_table_def by metis
  with p(2) have tt: "key t \<in> fmdom' tr" by simp
  with tu have tU: "key t \<in> U" by blast
  have inv1: "build_inv tr (key endp) U m1"
    unfolding m1_def using inv build_inv_new[OF inv _ tU] by (simp split: option.splits)
  have pr1: "parent_rel m1 = parent_rel m"
    unfolding m1_def using parent_rel_new by (simp split: option.splits)
  have d1: "fmdom' m1 = insert (key t) (fmdom' m)"
    unfolding m1_def by (auto simp: fmdom'I split: option.splits)
  from d1 ckd have c1: "ck \<in> fmdom' m1" and t1: "key t \<in> fmdom' m1" by simp_all
  note l1 = build_inv_linked[OF inv1]
  have ha: "hasAncestor m1 ck (key t) = Inr (key t \<in> ancestors m1 ck)"
    by (rule hasAncestor_correct[OF l1 c1])
  from getAncestors_correct[OF l1 c1] obtain ks where
    ks: "getAncestors m1 ck = Inr ks" "set ks = ancestors m1 ck" by blast
  from canReachEnd_sound_complete(1)[OF ct tt, of "key endp" "ks @ [ck]"] obtain b h' where
    cr: "canReachEnd (key t) (key endp) tr (ks @ [ck]) = Inr (b, h')"
        "b \<longleftrightarrow> reaches tr (key t) (key endp) (ks @ [ck])" by blast
  have vt: "visitTransition endp tr ck t (m, q)
              = (case hasAncestor m1 ck (key t) of
                   Inl e \<Rightarrow> Inl e
                 | Inr True \<Rightarrow> Inr (m1, q)
                 | Inr False \<Rightarrow>
                    (case getAncestors m1 ck of
                       Inl e \<Rightarrow> Inl e
                     | Inr ancestorKeys \<Rightarrow>
                        (case canReachEnd (key t) (key endp) tr (ancestorKeys @ [ck]) of
                           Inl e \<Rightarrow> Inl e
                         | Inr (False, h) \<Rightarrow> Inr (m1, q)
                         | Inr (True, h) \<Rightarrow>
                             Inr (link ck (key t) m1,
                                  if key t = key endp then q else q @ [t]))))"
    unfolding visitTransition_def m1_def link_def Let_def fst_conv snd_conv by (rule refl)
  show ?thesis
  proof (cases "key t \<in> ancestors m1 ck \<or> \<not> b")
    case True
    have "visitTransition endp tr ck t (m, q) = Inr (m1, q)"
    proof (cases "key t \<in> ancestors m1 ck")
      case True
      then show ?thesis unfolding vt ha by simp
    next
      case na: False
      with True have "\<not> b" by simp
      with na cr(1) show ?thesis unfolding vt ha ks(1) by (simp del: canReachEnd.simps)
    qed
    moreover have "fmdom' m \<subseteq> fmdom' m1" "parent_rel m \<subseteq> parent_rel m1" "key t \<in> fmdom' m1"
      unfolding d1 pr1 by blast+
    ultimately show ?thesis using inv1 by blast
  next
    case False
    then have na: "key t \<notin> ancestors m1 ck" and b: b by simp_all
    let ?m' = "link ck (key t) m1" and ?q' = "if key t = key endp then q else q @ [t]"
    have r: "visitTransition endp tr ck t (m, q) = Inr (?m', ?q')"
      unfolding vt ha ks(1) using cr(1) na b by (simp del: canReachEnd.simps)
    from lf nb have ne: "key t \<noteq> ck" unfolding loop_free_def by blast
    from b cr(2) have re: "reaches tr (key t) (key endp) []" by (simp add: reaches_weaken)
    have inv': "build_inv tr (key endp) U ?m'"
      by (rule build_inv_link[OF inv1 t1 c1 ne na nb re])
    have pr': "parent_rel ?m' = insert (key t, ck) (parent_rel m)"
      using parent_rel_link[OF t1] pr1 by simp
    have d': "fmdom' ?m' = insert (key t) (fmdom' m)" by (simp add: fmdom'_link d1)
    have "?q' = q \<or> (?q' = q @ [t] \<and> (key t, ck) \<in> parent_rel ?m')"
      unfolding pr' by simp
    moreover have "fmdom' m \<subseteq> fmdom' ?m'" "parent_rel m \<subseteq> parent_rel ?m'" "key t \<in> fmdom' ?m'"
      unfolding d' pr' by blast+
    ultimately show ?thesis using r inv' by blast
  qed
qed

lemma visit_all:
  assumes ct: "closed_table tr" and lf: "loop_free tr" and tu: "fmdom' tr \<subseteq> U"
  shows "build_inv tr (key endp) U m \<Longrightarrow> ck \<in> fmdom' m \<Longrightarrow>
     \<forall>t \<in> set ts. neighbour tr ck (key t) \<Longrightarrow>
     \<exists>m' pushed. for_each (visitTransition endp tr ck) ts (m, q) = Inr (m', q @ pushed)
        \<and> build_inv tr (key endp) U m' \<and> fmdom' m \<subseteq> fmdom' m'
        \<and> parent_rel m \<subseteq> parent_rel m'
        \<and> length pushed \<le> length ts
        \<and> (\<forall>t \<in> set pushed. (key t, ck) \<in> parent_rel m')"
proof (induction ts arbitrary: m q)
  case Nil
  then show ?case by (intro exI[of _ m] exI[of _ "[]"]) simp
next
  case (Cons t ts)
  from Cons.prems(3) have nb: "neighbour tr ck (key t)"
    and nbs: "\<forall>t \<in> set ts. neighbour tr ck (key t)" by simp_all
  from visitTransition_step[OF ct lf tu Cons.prems(1,2) nb, of q] obtain m1 q1 where
    s1: "visitTransition endp tr ck t (m, q) = Inr (m1, q1)"
    and inv1: "build_inv tr (key endp) U m1" and d1: "fmdom' m \<subseteq> fmdom' m1"
    and p1: "parent_rel m \<subseteq> parent_rel m1"
    and q1: "q1 = q \<or> (q1 = q @ [t] \<and> (key t, ck) \<in> parent_rel m1)" by blast
  from d1 Cons.prems(2) have c1: "ck \<in> fmdom' m1" by blast
  from Cons.IH[OF inv1 c1 nbs, of q1] obtain m' pushed where
    r: "for_each (visitTransition endp tr ck) ts (m1, q1) = Inr (m', q1 @ pushed)"
    and inv': "build_inv tr (key endp) U m'" and d': "fmdom' m1 \<subseteq> fmdom' m'"
    and p': "parent_rel m1 \<subseteq> parent_rel m'"
    and len: "length pushed \<le> length ts"
    and pu: "\<forall>t \<in> set pushed. (key t, ck) \<in> parent_rel m'" by blast
  have fe: "for_each (visitTransition endp tr ck) (t # ts) (m, q) = Inr (m', q1 @ pushed)"
    using s1 r by simp
  from d1 d' have dd: "fmdom' m \<subseteq> fmdom' m'" by blast
  from p1 p' have pp: "parent_rel m \<subseteq> parent_rel m'" by blast
  from q1 show ?case
  proof
    assume "q1 = q"
    with fe inv' dd pp len pu show ?thesis
      by (intro exI[of _ m'] exI[of _ pushed]) simp
  next
    assume a: "q1 = q @ [t] \<and> (key t, ck) \<in> parent_rel m1"
    with p' have "(key t, ck) \<in> parent_rel m'" by blast
    with a fe inv' dd pp len pu show ?thesis
      by (intro exI[of _ m'] exI[of _ "t # pushed"]) simp
  qed
qed

lemma ancestors_mono:
  "parent_rel m \<subseteq> parent_rel m' \<Longrightarrow> ancestors m k \<subseteq> ancestors m' k"
  unfolding ancestors_def using trancl_mono by blast

lemma weight_mono:
  assumes "parent_rel m \<subseteq> parent_rel m'" and "linked_nodes m'"
  shows "weight B N m' p \<le> weight B N m p"
proof -
  have "card (ancestors m (key p)) \<le> card (ancestors m' (key p))"
    by (rule card_mono[OF finite_ancestors[OF assms(2)] ancestors_mono[OF assms(1)]])
  then show ?thesis unfolding weight_def by (intro power_increasing) simp_all
qed

lemma sum_list_bounded:
  "\<forall>x \<in> set xs. f x \<le> (c::nat) \<Longrightarrow> sum_list (map f xs) \<le> length xs * c"
  by (induction xs) auto

lemma sum_list_pointwise:
  "\<forall>x \<in> set xs. f x \<le> (g x :: nat) \<Longrightarrow> sum_list (map f xs) \<le> sum_list (map g xs)"
  by (induction xs) (auto intro: add_mono)

lemma card_ancestors_less:
  assumes l: "linked_nodes m" and d: "fmdom' m \<subseteq> U" and f: "finite U" and k: "k \<in> fmdom' m"
  shows "card (ancestors m k) < card U"
proof -
  have "ancestors m k \<subseteq> U" using ancestors_subset_dom[OF l] d by blast
  moreover have "k \<notin> ancestors m k" by (rule not_own_ancestor[OF l])
  moreover have "k \<in> U" using k d by blast
  ultimately have "ancestors m k \<subset> U" by blast
  then show ?thesis by (rule psubset_card_mono[OF f])
qed

lemma build_measure_decreases:
  assumes l: "linked_nodes m" and l': "linked_nodes m'" and d: "fmdom' m \<subseteq> U" and f: "finite U"
    and k: "key p \<in> fmdom' m" and pp: "parent_rel m \<subseteq> parent_rel m'"
    and len: "length pushed \<le> B"
    and pu: "\<forall>t \<in> set pushed. (key t, key p) \<in> parent_rel m'"
  shows "build_measure B (card U) (m', rest @ pushed) < build_measure B (card U) (m, p # rest)"
proof -
  let ?N = "card U" and ?h = "card (ancestors m (key p))"
  have h: "?h < ?N" by (rule card_ancestors_less[OF l d f k])
  have r: "sum_list (map (weight B ?N m') rest) \<le> sum_list (map (weight B ?N m) rest)"
    by (intro sum_list_pointwise ballI weight_mono[OF pp l'])
  have "\<forall>t \<in> set pushed. weight B ?N m' t \<le> Suc B ^ (?N - Suc ?h)"
  proof
    fix t assume "t \<in> set pushed"
    with pu have "(key t, key p) \<in> parent_rel m'" by blast
    then have "card (ancestors m' (key p)) < card (ancestors m' (key t))"
      by (rule ancestors_parent_less[OF l'])
    moreover have "?h \<le> card (ancestors m' (key p))"
      by (rule card_mono[OF finite_ancestors[OF l'] ancestors_mono[OF pp]])
    ultimately have "Suc ?h \<le> card (ancestors m' (key t))" by simp
    then show "weight B ?N m' t \<le> Suc B ^ (?N - Suc ?h)"
      unfolding weight_def by (intro power_increasing) simp_all
  qed
  then have "sum_list (map (weight B ?N m') pushed) \<le> length pushed * Suc B ^ (?N - Suc ?h)"
    by (rule sum_list_bounded)
  also have "\<dots> \<le> B * Suc B ^ (?N - Suc ?h)" using len by simp
  also have "\<dots> < Suc B * Suc B ^ (?N - Suc ?h)" by simp
  also have "\<dots> = Suc B ^ (?N - ?h)"
  proof -
    from h have "?N - ?h = Suc (?N - Suc ?h)" by simp
    then show ?thesis by simp
  qed
  finally have "sum_list (map (weight B ?N m') pushed) < weight B ?N m p"
    by (simp add: weight_def)
  with r show ?thesis by (simp add: build_measure_def)
qed

lemma nodesFromTransitions_loop_total:
  assumes ct: "closed_table tr" and lf: "loop_free tr" and tu: "fmdom' tr \<subseteq> U"
    and f: "finite U" and B: "\<forall>k ps. fmlookup tr k = Some ps \<longrightarrow> length ps \<le> B"
  shows "build_inv tr (key endp) U m \<Longrightarrow>
         \<forall>p \<in> set q. key p \<in> fmdom' m \<and> key p \<in> fmdom' tr \<Longrightarrow>
         \<exists>m'. nodesFromTransitions_loop endp tr (m, q) = Some (Inr m')
              \<and> build_inv tr (key endp) U m'"
proof (induction "build_measure B (card U) (m, q)" arbitrary: m q rule: less_induct)
  case less
  show ?case
  proof (cases q)
    case Nil
    then have "nodesFromTransitions_loop endp tr (m, q) = Some (Inr m)"
      by (subst nodesFromTransitions_loop.simps) simp
    with less.prems(1) show ?thesis by blast
  next
    case (Cons p rest)
    with less.prems(2) have pm: "key p \<in> fmdom' m" and pt: "key p \<in> fmdom' tr"
      and rq: "\<forall>x \<in> set rest. key x \<in> fmdom' m \<and> key x \<in> fmdom' tr" by simp_all
    from pm obtain n where n: "fmlookup m (key p) = Some n" by (auto simp: in_fmdom'_lookup)
    from pt obtain ts where ts: "fmlookup tr (key p) = Some ts" by (auto simp: in_fmdom'_lookup)
    have nbs: "\<forall>t \<in> set ts. neighbour tr (key p) (key t)"
      using ts by (simp add: neighbour_def)
    from visit_all[OF ct lf tu less.prems(1) pm nbs, of rest] obtain m' pushed where
      r: "for_each (visitTransition endp tr (key p)) ts (m, rest) = Inr (m', rest @ pushed)"
      and inv': "build_inv tr (key endp) U m'" and d': "fmdom' m \<subseteq> fmdom' m'"
      and p': "parent_rel m \<subseteq> parent_rel m'"
      and len: "length pushed \<le> length ts"
      and pu: "\<forall>t \<in> set pushed. (key t, key p) \<in> parent_rel m'" by blast
    have step: "nodesFromTransitions_loop endp tr (m, q)
                  = nodesFromTransitions_loop endp tr (m', rest @ pushed)"
      using Cons n ts r by (subst nodesFromTransitions_loop.simps) simp
    from B ts len have lenB: "length pushed \<le> B" by fastforce
    note l = build_inv_linked[OF less.prems(1)] and l' = build_inv_linked[OF inv']
    from less.prems(1) have dU: "fmdom' m \<subseteq> U" by (simp add: build_inv_def)
    have dec: "build_measure B (card U) (m', rest @ pushed) < build_measure B (card U) (m, q)"
      unfolding Cons by (rule build_measure_decreases[OF l l' dU f pm p' lenB pu])
    have q': "\<forall>x \<in> set (rest @ pushed). key x \<in> fmdom' m' \<and> key x \<in> fmdom' tr"
    proof
      fix x assume "x \<in> set (rest @ pushed)"
      then consider "x \<in> set rest" | "x \<in> set pushed" by auto
      then show "key x \<in> fmdom' m' \<and> key x \<in> fmdom' tr"
      proof cases
        case 1
        with rq d' show ?thesis by blast
      next
        case 2
        with pu have e: "(key x, key p) \<in> parent_rel m'" by blast
        with l' have "key x \<in> fmdom' m'" unfolding linked_nodes_def by blast
        moreover from inv' e have "neighbour tr (key p) (key x)" unfolding build_inv_def by blast
        then obtain y where "y \<in> set ts" "key y = key x"
          using ts unfolding neighbour_def by (metis image_iff option.simps(5))
        with ct ts have "key x \<in> fmdom' tr" unfolding closed_table_def by metis
        ultimately show ?thesis by simp
      qed
    qed
    from less.hyps[OF dec inv' q'] step show ?thesis by simp
  qed
qed

lemma fold_upt_invariant:
  assumes "I 0 t0" and "\<And>i t. i < n \<Longrightarrow> I i t \<Longrightarrow> I (Suc i) (f i t)"
  shows "m \<le> n \<Longrightarrow> I m (fold f [0..<m] t0)"
proof (induction m)
  case 0
  then show ?case using assms(1) by simp
next
  case (Suc m)
  then show ?case using assms(2)[of m "fold f [0..<m] t0"] by simp
qed

lemma populateTransitions_ok:
  assumes dp: "distinct path" and ct: "closed_table tr" and lf: "loop_free tr"
  shows "closed_table (populateTransitions path tr) \<and> loop_free (populateTransitions path tr)"
proof -
  define f where "f = (\<lambda>i tr.
        let k = key (path ! i);
            transAry = (case fmlookup tr k of None \<Rightarrow> [] | Some ary \<Rightarrow> ary);
            transAry1 = (if 1 \<le> i \<and> \<not> (\<exists>p \<in> set transAry. equals p (path ! (i - 1)))
                         then transAry @ [path ! (i - 1)] else transAry);
            transAry2 = (if i + 1 < length path
                            \<and> \<not> (\<exists>p \<in> set transAry1. equals p (path ! (i + 1)))
                         then transAry1 @ [path ! (i + 1)] else transAry1)
        in fmupd k transAry2 tr)"
  have pt: "populateTransitions path tr = fold f [0..<length path] tr"
    unfolding populateTransitions_def f_def ..
  define old where "old = (\<lambda>(t::Transitions) k. case fmlookup t k of None \<Rightarrow> [] | Some ary \<Rightarrow> ary)"
  have fstep: "\<exists>ary. f i t = fmupd (key (path ! i)) ary t
                 \<and> set ary \<subseteq> set (old t (key (path ! i)))
                      \<union> {x. (1 \<le> i \<and> x = path ! (i - 1)) \<or> (i + 1 < length path \<and> x = path ! (i + 1))}"
    for i t
    unfolding f_def old_def Let_def by (intro exI conjI, rule refl) auto
  define I where "I = (\<lambda>i (t::Transitions). loop_free t
       \<and> (\<forall>k ps p. fmlookup t k = Some ps \<longrightarrow> p \<in> set ps \<longrightarrow> key p \<in> fmdom' t \<or> p \<in> set path)
       \<and> (\<forall>j < i. key (path ! j) \<in> fmdom' t))"
  have I0: "I 0 tr"
    using ct lf unfolding I_def closed_table_def by blast
  have Istep: "I (Suc i) (f i t)" if i: "i < length path" and It: "I i t" for i t
  proof -
    from fstep[of i t] obtain ary where
      ft: "f i t = fmupd (key (path ! i)) ary t"
      and ar: "set ary \<subseteq> set (old t (key (path ! i)))
                 \<union> {x. (1 \<le> i \<and> x = path ! (i - 1)) \<or> (i + 1 < length path \<and> x = path ! (i + 1))}"
      by blast
    let ?k = "key (path ! i)"
    from It have lft: "loop_free t"
      and wc: "\<forall>k ps p. fmlookup t k = Some ps \<longrightarrow> p \<in> set ps \<longrightarrow> key p \<in> fmdom' t \<or> p \<in> set path"
      and dm: "\<forall>j < i. key (path ! j) \<in> fmdom' t" unfolding I_def by blast+
    have oldk: "p \<in> set (old t ?k) \<Longrightarrow> fmlookup t ?k = Some (old t ?k)" for p
      unfolding old_def by (cases "fmlookup t ?k") simp_all
    have nself: "key p \<noteq> ?k" if "p \<in> set ary" for p
    proof
      assume e: "key p = ?k"
      from ar that consider "p \<in> set (old t ?k)" | "1 \<le> i" "p = path ! (i - 1)"
        | "i + 1 < length path" "p = path ! (i + 1)" by blast
      then show False
      proof cases
        case 1
        from oldk[OF 1] 1 e have "neighbour t ?k ?k"
          unfolding neighbour_def by (simp add: image_iff) (metis)
        with lft show False unfolding loop_free_def by blast
      next
        case 2
        with e have "path ! (i - 1) = path ! i" by (simp add: key_id)
        with dp i 2(1) show False by (simp add: nth_eq_iff_index_eq)
      next
        case 3
        with e have "path ! (i + 1) = path ! i" by (simp add: key_id)
        with dp i 3(1) show False by (simp add: nth_eq_iff_index_eq)
      qed
    qed
    have lf': "loop_free (f i t)"
      unfolding loop_free_def
    proof (intro allI notI)
      fix x assume nx: "neighbour (f i t) x x"
      show False
      proof (cases "x = ?k")
        case True
        with nx have "x \<in> key ` set ary" unfolding ft neighbour_def by simp
        then obtain p where "p \<in> set ary" "key p = x" by (metis image_iff)
        with nself True show False by blast
      next
        case False
        with nx have "neighbour t x x" unfolding ft neighbour_def by simp
        with lft show False unfolding loop_free_def by blast
      qed
    qed
    have wc': "\<forall>k ps p. fmlookup (f i t) k = Some ps \<longrightarrow> p \<in> set ps
                 \<longrightarrow> key p \<in> fmdom' (f i t) \<or> p \<in> set path"
    proof (intro allI impI)
      fix k ps p assume a: "fmlookup (f i t) k = Some ps" "p \<in> set ps"
      have dsub: "fmdom' t \<subseteq> fmdom' (f i t)" unfolding ft by auto
      show "key p \<in> fmdom' (f i t) \<or> p \<in> set path"
      proof (cases "k = ?k")
        case True
        with a have "p \<in> set ary" unfolding ft by simp
        with ar consider "p \<in> set (old t ?k)" | "1 \<le> i" "p = path ! (i - 1)"
          | "i + 1 < length path" "p = path ! (i + 1)" by blast
        then show ?thesis
        proof cases
          case 1
          from oldk[OF 1] 1 wc have "key p \<in> fmdom' t \<or> p \<in> set path" by blast
          with dsub show ?thesis by blast
        next
          case 2
          with i have "p \<in> set path" by simp
          then show ?thesis ..
        next
          case 3
          then have "p \<in> set path" by simp
          then show ?thesis ..
        qed
      next
        case False
        with a have "fmlookup t k = Some ps" unfolding ft by simp
        with a(2) wc have "key p \<in> fmdom' t \<or> p \<in> set path" by blast
        with dsub show ?thesis by blast
      qed
    qed
    have dm': "\<forall>j < Suc i. key (path ! j) \<in> fmdom' (f i t)"
    proof (intro allI impI)
      fix j assume "j < Suc i"
      then have "j < i \<or> j = i" by auto
      then show "key (path ! j) \<in> fmdom' (f i t)"
        unfolding ft using dm by auto
    qed
    from lf' wc' dm' show ?thesis unfolding I_def by blast
  qed
  have "I (length path) (fold f [0..<length path] tr)"
    by (rule fold_upt_invariant[where I = I and n = "length path", OF I0 Istep]) simp_all
  then have fin: "I (length path) (populateTransitions path tr)" unfolding pt .
  let ?t = "populateTransitions path tr"
  from fin have lf': "loop_free ?t"
    and wc: "\<forall>k ps p. fmlookup ?t k = Some ps \<longrightarrow> p \<in> set ps \<longrightarrow> key p \<in> fmdom' ?t \<or> p \<in> set path"
    and dm: "\<forall>j < length path. key (path ! j) \<in> fmdom' ?t" unfolding I_def by blast+
  have "closed_table ?t"
    unfolding closed_table_def
  proof (intro allI impI ballI)
    fix k ps p assume a: "fmlookup ?t k = Some ps" "p \<in> set ps"
    with wc have "key p \<in> fmdom' ?t \<or> p \<in> set path" by blast
    moreover have "key p \<in> fmdom' ?t" if "p \<in> set path"
    proof -
      from that obtain j where "j < length path" "path ! j = p" by (metis in_set_conv_nth)
      with dm show ?thesis by blast
    qed
    ultimately show "key p \<in> fmdom' ?t" by blast
  qed
  then show ?thesis using lf' by (rule conjI)
qed

lemma fold_populateTransitions_ok:
  "\<forall>path \<in> set paths. distinct path \<Longrightarrow> closed_table tr \<Longrightarrow> loop_free tr \<Longrightarrow>
     closed_table (fold populateTransitions paths tr) \<and> loop_free (fold populateTransitions paths tr)"
proof (induction paths arbitrary: tr)
  case Nil
  then show ?case by simp
next
  case (Cons p ps)
  from Cons.prems have "distinct p" by simp
  from populateTransitions_ok[OF this Cons.prems(2,3)] Cons.prems(1) Cons.IH show ?case by simp
qed

lemma table_of_ok:
  assumes "\<forall>path \<in> set paths. distinct path"
  shows "closed_table (table_of paths)" and "loop_free (table_of paths)"
proof -
  have "closed_table fmempty" "loop_free fmempty"
    by (simp_all add: closed_table_def loop_free_def neighbour_def)
  from fold_populateTransitions_ok[OF assms this] show "closed_table (table_of paths)"
    and "loop_free (table_of paths)" unfolding table_of_def by simp_all
qed

lemma entry_length_bound: "\<exists>B. \<forall>k ps. fmlookup (tr :: Transitions) k = Some ps \<longrightarrow> length ps \<le> B"
proof -
  let ?L = "(\<lambda>k. length (the (fmlookup tr k))) ` fmdom' tr"
  have fin: "finite ?L" by simp
  have "\<forall>k ps. fmlookup tr k = Some ps \<longrightarrow> length ps \<le> Max ?L"
  proof (intro allI impI)
    fix k ps assume a: "fmlookup tr k = Some ps"
    then have "k \<in> fmdom' tr" by (rule fmdom'I)
    then have "length (the (fmlookup tr k)) \<in> ?L" by (rule imageI)
    with a have "length ps \<in> ?L" by simp
    then show "length ps \<le> Max ?L" by (rule Max_ge[OF fin])
  qed
  then show ?thesis ..
qed

lemma parent_rel_initial:
  "parent_rel (fmupd e (new_MapNode ep) (fmupd s (new_MapNode sp) fmempty)) = {}"
proof -
  have "parent_rel (fmempty :: NodeRefs) = {}" by (simp add: parent_rel_def)
  moreover have "parent_rel (fmupd k (new_MapNode p) m) \<subseteq> parent_rel m" for k p and m :: NodeRefs
  proof
    fix z assume z: "z \<in> parent_rel (fmupd k (new_MapNode p) m)"
    obtain c a where zz: "z = (c, a)" by (cases z)
    from z parent_relD obtain n where
      n: "fmlookup (fmupd k (new_MapNode p) m) c = Some n" "a \<in> set (parents n)"
      unfolding zz by blast
    have "c \<noteq> k"
    proof
      assume "c = k"
      with n(1) have "n = new_MapNode p" by simp
      with n(2) show False by (simp add: new_MapNode_def)
    qed
    with n(1) have "fmlookup m c = Some n" by simp
    then show "z \<in> parent_rel m" unfolding zz using n(2) by (rule parent_relI)
  qed
  ultimately show ?thesis by blast
qed

lemma build_inv_initial:
  assumes "s \<in> U" and "e \<in> U"
  shows "build_inv tr x U (fmupd e (new_MapNode ep) (fmupd s (new_MapNode sp) fmempty))"
proof -
  let ?m = "fmupd e (new_MapNode ep) (fmupd s (new_MapNode sp) fmempty)"
  have pr: "parent_rel ?m = {}" by (rule parent_rel_initial)
  have "acyclic ({} :: (key \<times> key) set)" by (simp add: acyclic_def)
  then have "linked_nodes ?m" unfolding linked_nodes_def pr by simp
  moreover have "fmdom' ?m \<subseteq> U" using assms by simp
  moreover have "\<forall>p n c. fmlookup ?m p = Some n \<longrightarrow> (c \<in> set (children n) \<longleftrightarrow> (c, p) \<in> parent_rel ?m)"
    unfolding pr by (auto simp: new_MapNode_def split: if_splits)
  ultimately show ?thesis unfolding build_inv_def pr by blast
qed

lemma reaches_neighbour:
  assumes "neighbour tr k c" and "reaches tr c e []"
  shows "reaches tr k e []"
proof -
  from assms(2) obtain ks where "route tr (c # ks)" "last (c # ks) = e"
    unfolding reaches_def by blast
  with assms(1) have "route tr (k # c # ks)" "last (k # c # ks) = e" by simp_all
  then show ?thesis unfolding reaches_def by (intro exI[of _ "c # ks"]) simp
qed

lemma build_inv_result:
  assumes inv: "build_inv tr e U m"
  shows "acyclic (parent_rel m)"
    and "\<forall>k \<in> fmdom' m. hasAncestor m k k = Inr False"
    and "\<forall>k n. fmlookup m k = Some n \<longrightarrow> parents n \<noteq> [] \<or> children n \<noteq> [] \<longrightarrow> reaches tr k e []"
proof -
  note l = build_inv_linked[OF inv]
  from l show "acyclic (parent_rel m)" by (simp add: linked_nodes_def)
  show "\<forall>k \<in> fmdom' m. hasAncestor m k k = Inr False"
    using hasAncestor_correct[OF l] not_own_ancestor[OF l] by simp
  from inv have ch: "\<forall>p n c. fmlookup m p = Some n \<longrightarrow> (c \<in> set (children n) \<longleftrightarrow> (c, p) \<in> parent_rel m)"
    and rt: "\<forall>c p. (c, p) \<in> parent_rel m \<longrightarrow> neighbour tr p c \<and> reaches tr c e []"
    unfolding build_inv_def by blast+
  show "\<forall>k n. fmlookup m k = Some n \<longrightarrow> parents n \<noteq> [] \<or> children n \<noteq> [] \<longrightarrow> reaches tr k e []"
  proof (intro allI impI)
    fix k n assume n: "fmlookup m k = Some n" and pc: "parents n \<noteq> [] \<or> children n \<noteq> []"
    from pc show "reaches tr k e []"
    proof
      assume "parents n \<noteq> []"
      then obtain p where "p \<in> set (parents n)" by (cases "parents n") auto
      with n have "(k, p) \<in> parent_rel m" by (rule parent_relI)
      with rt show ?thesis by blast
    next
      assume "children n \<noteq> []"
      then obtain c where "c \<in> set (children n)" by (cases "children n") auto
      with ch n have "(c, k) \<in> parent_rel m" by blast
      with rt have "neighbour tr k c" "reaches tr c e []" by blast+
      then show ?thesis by (rule reaches_neighbour)
    qed
  qed
qed

lemma nodesFromTransitions_total:
  assumes ct: "closed_table tr" and lf: "loop_free tr" and st: "key start \<in> fmdom' tr"
  shows "\<exists>m. nodesFromTransitions start endp tr = Some (Inr m)
            \<and> build_inv tr (key endp) (insert (key start) (insert (key endp) (fmdom' tr))) m"
proof -
  let ?U = "insert (key start) (insert (key endp) (fmdom' tr))"
  let ?m0 = "fmupd (key endp) (new_MapNode endp) (fmupd (key start) (new_MapNode start) fmempty)"
  from entry_length_bound[of tr] obtain B where
    B: "\<forall>k ps. fmlookup tr k = Some ps \<longrightarrow> length ps \<le> B" by blast
  have tu: "fmdom' tr \<subseteq> ?U" by blast
  have f: "finite ?U" by simp
  have i0: "build_inv tr (key endp) ?U ?m0" by (rule build_inv_initial) simp_all
  have q0: "\<forall>p \<in> set [start]. key p \<in> fmdom' ?m0 \<and> key p \<in> fmdom' tr"
    using st by simp
  from nodesFromTransitions_loop_total[OF ct lf tu f B i0 q0] show ?thesis
    unfolding nodesFromTransitions_def .
qed

lemma nodesFromTransitions_no_entry:
  assumes "key start \<notin> fmdom' tr"
  shows "nodesFromTransitions start endp tr = Some (Inl TypeError)"
proof -
  from assms have "fmlookup tr (key start) = None" by (simp add: fmdom'_notD)
  then show ?thesis
    unfolding nodesFromTransitions_def
    by (subst nodesFromTransitions_loop.simps) simp
qed

text \<open>
  Claim C4. For a table filled by \<open>populateTransitions\<close> from paths without repeated
  points, graph building returns: with a \<open>TypeError\<close> exactly when the start point is on none
  of the paths (its table entry is \<open>undefined\<close>), and otherwise with a node record whose
  parent relation is acyclic, in which \<open>hasAncestor\<close> of a node's own key is false for every
  node, whose child arrays mirror the parent arrays, and in which every node with a parent
  or a child has a route to the end through the table.
\<close>

theorem nodesFromTransitions_acyclic:
  assumes "\<forall>path \<in> set paths. distinct path"
  shows "\<exists>r. nodesFromTransitions start endp (table_of paths) = Some r
     \<and> (case r of
          Inl e \<Rightarrow> e = TypeError \<and> key start \<notin> fmdom' (table_of paths)
        | Inr nodes \<Rightarrow>
            key start \<in> fmdom' (table_of paths)
          \<and> acyclic (parent_rel nodes)
          \<and> (\<forall>k \<in> fmdom' nodes. hasAncestor nodes k k = Inr False)
          \<and> (\<forall>p n c. fmlookup nodes p = Some n \<longrightarrow>
                 (c \<in> set (children n) \<longleftrightarrow> (c, p) \<in> parent_rel nodes))
          \<and> (\<forall>k n. fmlookup nodes k = Some n \<longrightarrow> parents n \<noteq> [] \<or> children n \<noteq> [] \<longrightarrow>
                 reaches (table_of paths) k (key endp) []))"
proof (cases "key start \<in> fmdom' (table_of paths)")
  case True
  let ?U = "insert (key start) (insert (key endp) (fmdom' (table_of paths)))"
  from nodesFromTransitions_total[OF table_of_ok[OF assms] True, of endp] obtain m where
    r: "nodesFromTransitions start endp (table_of paths) = Some (Inr m)"
    and inv: "build_inv (table_of paths) (key endp) ?U m" by blast
  from inv have "\<forall>p n c. fmlookup m p = Some n \<longrightarrow> (c \<in> set (children n) \<longleftrightarrow> (c, p) \<in> parent_rel m)"
    unfolding build_inv_def by blast
  with build_inv_result[OF inv] r True show ?thesis by simp
next
  case False
  then show ?thesis by (simp add: nodesFromTransitions_no_entry)
qed

theorem nodesFromTransitions_acyclic_witness:
  "nodesFromTransitions (0, 2) (3, 1) (table_of [loop_path, loop_subPath]) = Some (Inr loop_nodes)
     \<and> acyclic (parent_rel loop_nodes)
     \<and> hasAncestor loop_nodes (2, 2) (2, 2) = Inr False
     \<and> (3, 3) \<in> set (parents (the (fmlookup loop_nodes (2, 2))))
     \<and> reaches (table_of [loop_path, loop_subPath]) (3, 3) (key (3, 1)) []"
proof -
  have d: "\<forall>path \<in> set [loop_path, loop_subPath]. distinct path"
    by (simp add: loop_path_def loop_subPath_def)
  have t: "table_of [loop_path, loop_subPath] = loop_table"
    by (simp add: table_of_def loop_table_def)
  have n: "fmlookup loop_nodes (2, 2) = Some \<lparr>coord = (2, 2), distSinceFight = - 1,
             isBoss = False, portrait = None, parents = [(1, 1), (3, 3)], children = [(3, 1)]\<rparr>"
    "fmlookup loop_nodes (3, 3) = Some \<lparr>coord = (3, 3), distSinceFight = - 1,
             isBoss = False, portrait = None, parents = [(2, 4)], children = [(2, 2)]\<rparr>"
    by (simp_all add: loop_nodes_def fmlookup_of_list)
  from n(1) have m: "(2, 2) \<in> fmdom' loop_nodes" by (rule fmdom'I)
  from nodesFromTransitions_acyclic[OF d, of "(0, 2)" "(3, 1)"]
  have a: "acyclic (parent_rel loop_nodes)"
    and h: "\<forall>k \<in> fmdom' loop_nodes. hasAncestor loop_nodes k k = Inr False"
    and r: "\<forall>k n. fmlookup loop_nodes k = Some n \<longrightarrow> parents n \<noteq> [] \<or> children n \<noteq> [] \<longrightarrow>
                 reaches loop_table k (key (3, 1)) []"
    unfolding t loop_nodesFromTransitions by simp_all
  from h m have "hasAncestor loop_nodes (2, 2) (2, 2) = Inr False" by blast
  moreover from r n(2) have "reaches loop_table (3, 3) (key (3, 1)) []" by fastforce
  ultimately show ?thesis using a n(1) unfolding t loop_nodesFromTransitions by simp
qed

section \<open>Encounters and the boss during staging\<close>

lemma for_each_preserves:
  assumes "\<And>x s s'. I s \<Longrightarrow> body x s = Inr s' \<Longrightarrow> I s'"
  shows "I s \<Longrightarrow> for_each body xs s = Inr s' \<Longrightarrow> I s'"
proof (induction xs arbitrary: s)
  case Nil
  then show ?case by simp
next
  case (Cons x xs)
  from Cons.prems(2) obtain s1 where s1: "body x s = Inr s1" "for_each body xs s1 = Inr s'"
    by (cases "body x s") simp_all
  from assms[OF Cons.prems(1) s1(1)] have "I s1" .
  from Cons.IH[OF this s1(2)] show ?case .
qed

lemma visitChild_enc:
  assumes v: "visitChild rnd np ck c (st, q) = Inr (st', q')"
    and inv: "enc_inv e (X \<union> set q) F (mapNodes st)"
  shows "enc_inv e (X \<union> set q') F (mapNodes st')"
proof -
  from visitChild_Inr_dom[OF v] obtain pn cn where
    l: "fmlookup (mapNodes st) ck = Some pn" "fmlookup (mapNodes st) c = Some cn"
    by (auto simp: in_fmdom'_lookup)
  from visitChild_result[OF l, of rnd np q] v obtain cn' where
    c': "fmlookup (mapNodes st') c = Some cn'"
    and d': "distSinceFight cn' =
             (if distSinceFight cn = - 1 \<or> distSinceFight cn > distSinceFight pn + 1
              then (if rnd (draws st) < fightChance (distSinceFight pn)
                    then 0 else max (distSinceFight pn + 1) 1)
              else distSinceFight cn)"
    and b': "isBoss cn' = isBoss cn"
    and o: "\<forall>k. k \<noteq> c \<longrightarrow> fmlookup (mapNodes st') k = fmlookup (mapNodes st) k"
    and q': "set q' \<subseteq> insert c (set q)" by auto
  from inv have ok: "dsf_ok (mapNodes st)" and bo: "bosses (mapNodes st) = {e}"
    and ef: "e \<in> fights (mapNodes st)" and xr: "X \<union> set q \<subseteq> resolved (mapNodes st)"
    and ff: "F \<subseteq> fights (mapNodes st)" unfolding enc_inv_def by blast+
  from ok l have pd: "- 1 \<le> distSinceFight pn" and cd: "- 1 \<le> distSinceFight cn"
    unfolding dsf_ok_def by blast+
  from d' pd cd have c0: "0 \<le> distSinceFight cn'" by (auto split: if_splits)
  from d' pd have cz: "distSinceFight cn = 0 \<Longrightarrow> distSinceFight cn' = 0" by simp
  have look: "\<exists>n'. fmlookup (mapNodes st') k = Some n' \<and> isBoss n' = isBoss n
                  \<and> (0 \<le> distSinceFight n \<longrightarrow> 0 \<le> distSinceFight n')
                  \<and> (distSinceFight n = 0 \<longrightarrow> distSinceFight n' = 0)
                  \<and> - 1 \<le> distSinceFight n'"
    if "fmlookup (mapNodes st) k = Some n" for k n
  proof (cases "k = c")
    case True
    with that l(2) have "n = cn" by simp
    with True c' b' c0 cz show ?thesis by simp
  next
    case False
    then have "fmlookup (mapNodes st') k = fmlookup (mapNodes st) k" by (rule o[rule_format])
    with that have "fmlookup (mapNodes st') k = Some n" by simp
    moreover from ok that have "- 1 \<le> distSinceFight n" unfolding dsf_ok_def by blast
    ultimately show ?thesis by simp
  qed
  have bk: "\<exists>n. fmlookup (mapNodes st) k = Some n \<and> isBoss n' = isBoss n"
    if "fmlookup (mapNodes st') k = Some n'" for k n'
  proof (cases "k = c")
    case True
    with that c' l(2) b' show ?thesis by simp
  next
    case False
    then have "fmlookup (mapNodes st') k = fmlookup (mapNodes st) k" by (rule o[rule_format])
    with that show ?thesis by simp
  qed
  have ok': "dsf_ok (mapNodes st')"
    unfolding dsf_ok_def
  proof (intro allI impI)
    fix k n' assume a: "fmlookup (mapNodes st') k = Some n'"
    from bk[OF a] obtain n where "fmlookup (mapNodes st) k = Some n" by blast
    from look[OF this] a show "- 1 \<le> distSinceFight n'" by auto
  qed
  have bo': "bosses (mapNodes st') = bosses (mapNodes st)"
  proof (rule set_eqI)
    fix k
    show "k \<in> bosses (mapNodes st') \<longleftrightarrow> k \<in> bosses (mapNodes st)"
    proof
      assume "k \<in> bosses (mapNodes st')"
      then obtain n' where a: "fmlookup (mapNodes st') k = Some n'" "isBoss n'"
        unfolding bosses_def by blast
      from bk[OF a(1)] a(2) show "k \<in> bosses (mapNodes st)" unfolding bosses_def by auto
    next
      assume "k \<in> bosses (mapNodes st)"
      then obtain n where a: "fmlookup (mapNodes st) k = Some n" "isBoss n"
        unfolding bosses_def by blast
      from look[OF a(1)] a(2) show "k \<in> bosses (mapNodes st')" unfolding bosses_def by auto
    qed
  qed
  have fi: "fights (mapNodes st) \<subseteq> fights (mapNodes st')"
  proof
    fix k assume "k \<in> fights (mapNodes st)"
    then obtain n where a: "fmlookup (mapNodes st) k = Some n" "distSinceFight n = 0"
      unfolding fights_def by blast
    from look[OF a(1)] a(2) show "k \<in> fights (mapNodes st')" unfolding fights_def by auto
  qed
  have re: "resolved (mapNodes st) \<subseteq> resolved (mapNodes st')"
  proof
    fix k assume "k \<in> resolved (mapNodes st)"
    then obtain n where a: "fmlookup (mapNodes st) k = Some n" "0 \<le> distSinceFight n"
      unfolding resolved_def by blast
    from look[OF a(1)] a(2) show "k \<in> resolved (mapNodes st')" unfolding resolved_def by auto
  qed
  have "c \<in> resolved (mapNodes st')" using c' c0 unfolding resolved_def by blast
  with q' xr re have "X \<union> set q' \<subseteq> resolved (mapNodes st')" by blast
  with ok' bo' bo ef fi ff show ?thesis unfolding enc_inv_def by blast
qed

lemma children_enc:
  assumes "for_each (visitChild rnd np ck) cs (st, q) = Inr (st', q')"
    and "enc_inv e (X \<union> set q) F (mapNodes st)"
  shows "enc_inv e (X \<union> set q') F (mapNodes st')"
proof -
  let ?I = "\<lambda>s. enc_inv e (X \<union> set (snd s)) F (mapNodes (fst s))"
  have "?I (st', q')"
  proof (rule for_each_preserves[where I = ?I and body = "visitChild rnd np ck", OF _ _ assms(1)])
    fix x s s' assume "?I s" "visitChild rnd np ck x s = Inr s'"
    then show "?I s'" using visitChild_enc[of rnd np ck x "fst s" "snd s" "fst s'" "snd s'" e X F]
      by simp
  next
    show "?I (st, q)" using assms(2) by simp
  qed
  then show ?thesis by simp
qed

lemma visitNode_enc:
  assumes v: "visitNode rnd np ck (st, acc) = Inr (st', acc')"
    and inv: "enc_inv e (X \<union> set (concat acc)) F (mapNodes st)"
  shows "enc_inv e (X \<union> set (concat acc')) F (mapNodes st')"
proof -
  from v obtain node where n: "fmlookup (mapNodes st) ck = Some node"
    by (auto simp: visitNode_def split: option.splits)
  with v obtain q where
    r: "for_each (visitChild rnd np ck) (children node) (st, []) = Inr (st', q)"
    and a: "acc' = acc @ [q]"
    by (auto simp: visitNode_def split: sum.splits)
  from inv have "enc_inv e ((X \<union> set (concat acc)) \<union> set []) F (mapNodes st)" by simp
  from children_enc[OF r this] a show ?thesis by (simp add: Un_assoc)
qed

lemma nodes_enc:
  assumes "for_each (visitNode rnd np) curs (st, acc) = Inr (st', acc')"
    and "enc_inv e (X \<union> set (concat acc)) F (mapNodes st)"
  shows "enc_inv e (X \<union> set (concat acc')) F (mapNodes st')"
proof -
  let ?I = "\<lambda>s. enc_inv e (X \<union> set (concat (snd s))) F (mapNodes (fst s))"
  have "?I (st', acc')"
  proof (rule for_each_preserves[where I = ?I and body = "visitNode rnd np", OF _ _ assms(1)])
    fix x s s' assume "?I s" "visitNode rnd np x s = Inr s'"
    then show "?I s'" using visitNode_enc[of rnd np x "fst s" "snd s" "fst s'" "snd s'" e X F]
      by simp
  next
    show "?I (st, acc)" using assms(2) by simp
  qed
  then show ?thesis by simp
qed

lemma sweep_enc:
  assumes s: "sweep rnd np (st, curs) = Inr (st', curs')"
    and inv: "enc_inv e X F (mapNodes st)"
  shows "enc_inv e (X \<union> set curs') F (mapNodes st')"
proof -
  let ?st1 = "st\<lparr>steps_nodes := steps_nodes st @ [curs],
                  steps_paths := steps_paths st @ [currentPaths st], currentPaths := []\<rparr>"
  from s obtain acc where
    r: "for_each (visitNode rnd np) curs (?st1, []) = Inr (st', acc)"
    and c: "curs' = unique (concat acc)"
    by (auto simp: sweep_def Let_def split: sum.splits)
  from inv have "enc_inv e (X \<union> set (concat [])) F (mapNodes ?st1)" by simp
  from nodes_enc[OF r this] c show ?thesis by (simp add: unique_def set_unique_loop)
qed

lemma round_state_enc:
  "round_state rnd np n init = Some s \<Longrightarrow>
     enc_inv e (X \<union> set (snd init)) F (mapNodes (fst init)) \<Longrightarrow>
     enc_inv e (X \<union> set (snd s)) F (mapNodes (fst s))"
proof (induction n arbitrary: s)
  case 0
  then show ?case by simp
next
  case (Suc n)
  from Suc.prems(1) obtain s1 where s1: "round_state rnd np n init = Some s1"
    and sw: "sweep rnd np s1 = Inr s"
    by (auto split: option.splits if_splits sum.splits)
  from Suc.IH[OF s1 Suc.prems(2)] have "enc_inv e (X \<union> set (snd s1)) F (mapNodes (fst s1))" .
  then have "enc_inv e X F (mapNodes (fst s1))" unfolding enc_inv_def by blast
  from sweep_enc[of rnd np "fst s1" "snd s1" "fst s" "snd s", OF _ this] sw show ?case by simp
qed

lemma round_state_loop:
  "round_state rnd np n init = Some s \<Longrightarrow> staging_loop rnd np s = staging_loop rnd np init"
proof (induction n arbitrary: s)
  case 0
  then show ?case by simp
next
  case (Suc n)
  from Suc.prems obtain s1 where s1: "round_state rnd np n init = Some s1"
    and c: "snd s1 \<noteq> [] \<or> currentPaths (fst s1) \<noteq> []"
    and sw: "sweep rnd np s1 = Inr s"
    by (auto split: option.splits if_splits sum.splits)
  have "staging_loop rnd np s1 = staging_loop rnd np s"
    using c sw by (subst staging_loop.simps) simp
  with Suc.IH[OF s1] show ?case by simp
qed

lemma relaxation_enc:
  assumes r: "relaxation rnd np init ck c st st'"
    and inv: "enc_inv e (set (snd init)) {} (mapNodes (fst init))"
  shows "(\<exists>p. fmlookup (mapNodes st) ck = Some p \<and> 0 \<le> distSinceFight p)
       \<and> fights (mapNodes st) \<subseteq> fights (mapNodes st')
       \<and> bosses (mapNodes st) = {e} \<and> bosses (mapNodes st') = {e}
       \<and> e \<in> fights (mapNodes st)"
  using r unfolding relaxation_def
proof (elim exE conjE)
  fix n s j sj acc node i q q'
  assume rs: "round_state rnd np n init = Some s"
    and j: "j < length (snd s)" "ck = snd s ! j"
    and fj: "for_each (visitNode rnd np) (take j (snd s))
           ((fst s)\<lparr>steps_nodes := steps_nodes (fst s) @ [snd s],
                     steps_paths := steps_paths (fst s) @ [currentPaths (fst s)],
                     currentPaths := []\<rparr>, []) = Inr (sj, acc)"
    and fi: "for_each (visitChild rnd np ck) (take i (children node)) (sj, []) = Inr (st, q)"
    and v: "visitChild rnd np ck c (st, q) = Inr (st', q')"
  from inv have "enc_inv e ({} \<union> set (snd init)) {} (mapNodes (fst init))" by simp
  from round_state_enc[OF rs this] have i1: "enc_inv e (set (snd s)) {} (mapNodes (fst s))" by simp
  let ?st1 = "(fst s)\<lparr>steps_nodes := steps_nodes (fst s) @ [snd s],
                     steps_paths := steps_paths (fst s) @ [currentPaths (fst s)],
                     currentPaths := []\<rparr>"
  from i1 have "enc_inv e (set (snd s) \<union> set (concat [])) {} (mapNodes ?st1)" by simp
  from nodes_enc[OF fj this] have "enc_inv e (set (snd s)) {} (mapNodes sj)"
    unfolding enc_inv_def by blast
  then have i2: "enc_inv e (set (snd s) \<union> set []) {} (mapNodes sj)" by simp
  from children_enc[OF fi i2] have i3: "enc_inv e (set (snd s) \<union> set q) {} (mapNodes st)" .
  from j have "ck \<in> set (snd s)" by simp
  with i3 have "ck \<in> resolved (mapNodes st)" unfolding enc_inv_def by blast
  then have p: "\<exists>p. fmlookup (mapNodes st) ck = Some p \<and> 0 \<le> distSinceFight p"
    unfolding resolved_def by blast
  from i3 have "enc_inv e ({} \<union> set q) (fights (mapNodes st)) (mapNodes st)"
    unfolding enc_inv_def by blast
  from visitChild_enc[OF v this]
  have i4: "enc_inv e ({} \<union> set q') (fights (mapNodes st)) (mapNodes st')" .
  from i3 i4 p show ?thesis unfolding enc_inv_def by blast
qed

lemma staging_init_resolved:
  assumes "staging_init rnd np nodes start endp = Inr (st0, q0)"
  shows "set q0 \<subseteq> resolved (mapNodes st0)"
proof -
  from assms obtain sn where sn: "fmlookup nodes (key start) = Some sn"
    by (auto simp: staging_init_def split: option.splits)
  let ?n1 = "fmupd (key start) (sn\<lparr>distSinceFight := 1\<rparr>) nodes"
  from assms sn obtain en where en: "fmlookup ?n1 (key endp) = Some en"
    by (auto simp: staging_init_def Let_def split: option.splits)
  from assms sn en have q: "q0 = [key start]"
    and m: "mapNodes st0 = fmupd (key endp)
              (en\<lparr>distSinceFight := 0, isBoss := True,
                  portrait := Some (getPortrait np (rnd 0))\<rparr>) ?n1"
    by (auto simp: staging_init_def Let_def)
  have "key start \<in> resolved (mapNodes st0)"
    unfolding m resolved_def by (cases "key start = key endp") simp_all
  with q show ?thesis by simp
qed

lemma relaxation_first:
  assumes "snd init = ck # rest" and "fmlookup (mapNodes (fst init)) ck = Some node"
    and "children node = c # cs"
    and "visitChild rnd np ck c
           ((fst init)\<lparr>steps_nodes := steps_nodes (fst init) @ [snd init],
                        steps_paths := steps_paths (fst init) @ [currentPaths (fst init)],
                        currentPaths := []\<rparr>, []) = Inr (st', q')"
  shows "relaxation rnd np init ck c
           ((fst init)\<lparr>steps_nodes := steps_nodes (fst init) @ [snd init],
                        steps_paths := steps_paths (fst init) @ [currentPaths (fst init)],
                        currentPaths := []\<rparr>) st'"
  unfolding relaxation_def
  apply (rule exI[of _ "0::nat"])
  apply (rule exI[of _ init])
  apply (rule exI[of _ "0::nat"])
  apply (rule exI[of _ "(fst init)\<lparr>steps_nodes := steps_nodes (fst init) @ [snd init],
                        steps_paths := steps_paths (fst init) @ [currentPaths (fst init)],
                        currentPaths := []\<rparr>"])
  apply (rule exI[of _ "[]"])
  apply (rule exI[of _ node])
  apply (rule exI[of _ "0::nat"])
  apply (rule exI[of _ "[]"])
  apply (rule exI[of _ q'])
  using assms by simp

lemma fresh_nodes_new:
  assumes "fresh_nodes S m"
  shows "fresh_nodes S (fmupd k (new_MapNode p) m)"
proof -
  let ?m = "fmupd k (new_MapNode p) m"
  from assms have "S \<subseteq> fmdom' ?m" unfolding fresh_nodes_def by auto
  moreover have "\<forall>x n. fmlookup ?m x = Some n \<longrightarrow>
         distSinceFight n = - 1 \<and> \<not> isBoss n \<and> set (children n) \<subseteq> fmdom' ?m"
  proof (intro allI impI)
    fix x n assume a: "fmlookup ?m x = Some n"
    show "distSinceFight n = - 1 \<and> \<not> isBoss n \<and> set (children n) \<subseteq> fmdom' ?m"
    proof (cases "x = k")
      case True
      with a have "n = new_MapNode p" by simp
      then show ?thesis by (simp add: new_MapNode_def)
    next
      case False
      with a have "fmlookup m x = Some n" by simp
      with assms have "distSinceFight n = - 1 \<and> \<not> isBoss n \<and> set (children n) \<subseteq> fmdom' m"
        unfolding fresh_nodes_def by blast
      then show ?thesis by auto
    qed
  qed
  ultimately show ?thesis unfolding fresh_nodes_def by blast
qed

lemma fresh_nodes_link:
  assumes f: "fresh_nodes S m" and t: "t \<in> fmdom' m"
  shows "fresh_nodes S (link ck t m)"
proof -
  from f have "S \<subseteq> fmdom' m" unfolding fresh_nodes_def by blast
  moreover have "\<forall>x n'. fmlookup (link ck t m) x = Some n' \<longrightarrow>
         distSinceFight n' = - 1 \<and> \<not> isBoss n' \<and> set (children n') \<subseteq> fmdom' m"
  proof (intro allI impI)
    fix x n' assume a: "fmlookup (link ck t m) x = Some n'"
    from parents_link[OF a] obtain n where n: "fmlookup m x = Some n"
      "set (children n') = (if x = ck then insert t (set (children n)) else set (children n))"
      "distSinceFight n' = distSinceFight n" "isBoss n' = isBoss n" by blast
    from f n(1) have "distSinceFight n = - 1 \<and> \<not> isBoss n \<and> set (children n) \<subseteq> fmdom' m"
      unfolding fresh_nodes_def by blast
    with n(2,3,4) t show "distSinceFight n' = - 1 \<and> \<not> isBoss n' \<and> set (children n') \<subseteq> fmdom' m"
      by (auto split: if_splits)
  qed
  ultimately show ?thesis unfolding fresh_nodes_def fmdom'_link by blast
qed

lemma visitTransition_fresh:
  assumes v: "visitTransition endp tr ck t s = Inr s'" and f: "fresh_nodes S (fst s)"
  shows "fresh_nodes S (fst s')"
proof -
  define m1 where "m1 = (case fmlookup (fst s) (key t) of
                           None \<Rightarrow> fmupd (key t) (new_MapNode t) (fst s) | Some n \<Rightarrow> fst s)"
  have f1: "fresh_nodes S m1"
    unfolding m1_def using f fresh_nodes_new[OF f] by (simp split: option.splits)
  have t1: "key t \<in> fmdom' m1"
    unfolding m1_def by (auto simp: fmdom'I split: option.splits)
  from v have "fst s' = m1 \<or> fst s' = link ck (key t) m1"
    unfolding visitTransition_def m1_def link_def Let_def
    by (auto simp del: canReachEnd.simps split: sum.splits bool.splits prod.splits)
  then show ?thesis
  proof
    assume "fst s' = m1"
    with f1 show ?thesis by simp
  next
    assume "fst s' = link ck (key t) m1"
    with fresh_nodes_link[OF f1 t1, of ck] show ?thesis by simp
  qed
qed

lemma nodesFromTransitions_loop_fresh:
  assumes "nodesFromTransitions_loop endp tr s = Some r"
  shows "fresh_nodes S (fst s) \<longrightarrow> (\<forall>m. r = Inr m \<longrightarrow> fresh_nodes S m)"
proof (rule nodesFromTransitions_loop.raw_induct[where
          P = "\<lambda>endp tr s r. fresh_nodes S (fst s) \<longrightarrow> (\<forall>m. r = Inr m \<longrightarrow> fresh_nodes S m)",
          OF _ assms], goal_cases)
  case (1 loop endp tr s r)
  show ?case
  proof (intro impI allI)
    fix m assume f: "fresh_nodes S (fst s)" and r: "r = Inr m"
    show "fresh_nodes S m"
    proof (cases "snd s")
      case Nil
      with 1(2) r f show ?thesis by simp
    next
      case (Cons p rest)
      show ?thesis
      proof (cases "fmlookup (fst s) (key p)")
        case None
        with 1(2) Cons r f show ?thesis by simp
      next
        case (Some cn)
        with 1(2) Cons r obtain ts s' where
          ts: "fmlookup tr (key p) = Some ts"
          and fe: "for_each (visitTransition endp tr (key p)) ts (fst s, rest) = Inr s'"
          and l: "loop endp tr s' = Some (Inr m)"
          by (auto split: option.splits sum.splits)
        have "fresh_nodes S (fst s')"
        proof (rule for_each_preserves[where I = "\<lambda>x. fresh_nodes S (fst x)", OF _ _ fe])
          fix x a b assume "fresh_nodes S (fst a)" "visitTransition endp tr (key p) x a = Inr b"
          then show "fresh_nodes S (fst b)" using visitTransition_fresh by blast
        next
          show "fresh_nodes S (fst (fst s, rest))" using f by simp
        qed
        with 1(1)[OF l] show ?thesis by blast
      qed
    qed
  qed
qed

lemma nodesFromTransitions_fresh:
  assumes "nodesFromTransitions start endp tr = Some (Inr nodes)"
  shows "closed_nodes nodes" and "key start \<in> fmdom' nodes" and "key endp \<in> fmdom' nodes"
    and "dsf_ok nodes" and "bosses nodes = {}"
proof -
  let ?m0 = "fmupd (key endp) (new_MapNode endp) (fmupd (key start) (new_MapNode start) fmempty)"
  have f0: "fresh_nodes {key start, key endp} ?m0"
    unfolding fresh_nodes_def by (auto simp: new_MapNode_def split: if_splits)
  from assms have "nodesFromTransitions_loop endp tr (?m0, [start]) = Some (Inr nodes)"
    by (simp add: nodesFromTransitions_def)
  from nodesFromTransitions_loop_fresh[OF this, of "{key start, key endp}"] f0
  have f: "fresh_nodes {key start, key endp} nodes" by simp
  then show "key start \<in> fmdom' nodes" "key endp \<in> fmdom' nodes"
    unfolding fresh_nodes_def by blast+
  from f have fr: "\<forall>k n. fmlookup nodes k = Some n \<longrightarrow>
         distSinceFight n = - 1 \<and> \<not> isBoss n \<and> set (children n) \<subseteq> fmdom' nodes"
    unfolding fresh_nodes_def by blast
  then show "closed_nodes nodes" unfolding closed_nodes_def by blast
  show "dsf_ok nodes"
    unfolding dsf_ok_def
  proof (intro allI impI)
    fix k n assume "fmlookup nodes k = Some n"
    with fr have "distSinceFight n = - 1" by blast
    then show "- 1 \<le> distSinceFight n" by simp
  qed
  show "bosses nodes = {}"
  proof (rule ccontr)
    assume "bosses nodes \<noteq> {}"
    then obtain k n where "fmlookup nodes k = Some n" "isBoss n" unfolding bosses_def by blast
    with fr show False by blast
  qed
qed

lemma loop_first_relaxation:
  assumes "staging_init rnd np loop_nodes (0, 2) (3, 1) = Inr init"
  shows "\<exists>st st'. relaxation rnd np init (0, 2) (1, 1) st st'"
proof -
  from staging_init_inv[OF loop_nodes_closed loop_nodes_dom, of rnd np] assms obtain st0 where
    i: "init = (st0, [key (0, 2)])"
    and si: "stage_inv loop_nodes (key (0, 2)) (st0, [key (0, 2)])" by auto
  from si have sh: "same_shape (mapNodes st0) loop_nodes" by (simp add: stage_inv_def)
  then have d: "fmdom' (mapNodes st0) = fmdom' loop_nodes"
    and k: "kids (mapNodes st0) (0, 2) = kids loop_nodes (0, 2)"
    by (simp_all add: same_shape_def)
  have kl: "kids loop_nodes (0, 2) = [(1, 1), (1, 3)]"
    by (simp add: kids_def loop_nodes_def fmlookup_of_list)
  have dl: "(0, 2) \<in> fmdom' loop_nodes" "(1, 1) \<in> fmdom' loop_nodes"
    by (simp_all add: loop_nodes_def fmdom'_alt_def)
  from dl(1) d have "(0, 2) \<in> fmdom' (mapNodes st0)" by simp
  then obtain node where node: "fmlookup (mapNodes st0) (0, 2) = Some node"
    unfolding in_fmdom'_lookup by blast
  with k kl have ch: "children node = (1, 1) # [(1, 3)]" by (simp add: kids_def)
  let ?c = "st0\<lparr>steps_nodes := steps_nodes st0 @ [[key (0, 2)]],
                  steps_paths := steps_paths st0 @ [currentPaths st0], currentPaths := []\<rparr>"
  from d dl have "(0, 2) \<in> fmdom' (mapNodes ?c)" "(1, 1) \<in> fmdom' (mapNodes ?c)" by simp_all
  from visitChild_effect[OF this, of rnd np "[]"] obtain st' q' where
    v: "visitChild rnd np (0, 2) (1, 1) (?c, []) = Inr (st', q')" by blast
  have "relaxation rnd np init (0, 2) (1, 1) ?c st'"
    using relaxation_first[of init "(0, 2)" "[]" node "(1, 1)" "[(1, 3)]" rnd np st' q'] node ch v
    unfolding i by (simp add: key_id)
  then show ?thesis by blast
qed

text \<open>
  Claim C10. Whenever graph building returns its nodes, whatever the table,
  \<open>buildAnimationSteps\<close> returns, and in the returned state the end node has
  \<open>distSinceFight = 0\<close> and is the only boss. The same holds at the start of every round of
  the \<open>while\<close> loop, each of which leads on to the returned state. In every relaxation made
  during the run the current node has a \<open>distSinceFight\<close> of at least 0, every node with
  \<open>distSinceFight = 0\<close> before the relaxation has it after, and before and after it the end
  node is the only boss.
\<close>

theorem buildAnimationSteps_encounters_fixed:
  assumes "nodesFromTransitions start endp tr = Some (Inr nodes)"
  shows "\<exists>init stf.
       staging_init rnd np nodes start endp = Inr init
     \<and> buildAnimationSteps rnd np start endp tr = Some (Inr stf)
     \<and> (\<exists>n. fmlookup (mapNodes stf) (key endp) = Some n \<and> distSinceFight n = 0 \<and> isBoss n)
     \<and> bosses (mapNodes stf) = {key endp}
     \<and> (\<forall>n s. round_state rnd np n init = Some s \<longrightarrow>
            staging_loop rnd np s = Some (Inr stf)
          \<and> bosses (mapNodes (fst s)) = {key endp}
          \<and> key endp \<in> fights (mapNodes (fst s)))
     \<and> (\<forall>currentKey childKey st st'.
            relaxation rnd np init currentKey childKey st st' \<longrightarrow>
              (\<exists>p. fmlookup (mapNodes st) currentKey = Some p \<and> 0 \<le> distSinceFight p)
            \<and> fights (mapNodes st) \<subseteq> fights (mapNodes st')
            \<and> bosses (mapNodes st) = {key endp} \<and> bosses (mapNodes st') = {key endp}
            \<and> key endp \<in> fights (mapNodes st))"
proof -
  note nf = assms
  note cl = nodesFromTransitions_fresh(1)[OF nf] and sd = nodesFromTransitions_fresh(2)[OF nf]
    and ed = nodesFromTransitions_fresh(3)[OF nf] and ok = nodesFromTransitions_fresh(4)[OF nf]
    and nb = nodesFromTransitions_fresh(5)[OF nf]
  from staging_init_inv[OF cl sd ed, of rnd np] ok nb obtain st0 where
    si: "staging_init rnd np nodes start endp = Inr (st0, [key start])"
    and ok0: "dsf_ok (mapNodes st0)" and ef0: "key endp \<in> fights (mapNodes st0)"
    and b0: "bosses (mapNodes st0) = {key endp}" by auto
  from staging_total[OF cl sd ed, of rnd np] ok nb obtain stf where
    sf: "staging rnd np nodes start endp = Some (Inr stf)"
    and eff: "key endp \<in> fights (mapNodes stf)" and bf: "bosses (mapNodes stf) = {key endp}"
    by auto
  from sf si have lf: "staging_loop rnd np (st0, [key start]) = Some (Inr stf)"
    by (simp add: staging_def)
  from nf sf have ba: "buildAnimationSteps rnd np start endp tr = Some (Inr stf)"
    by (simp add: buildAnimationSteps_def)
  from eff obtain n where n: "fmlookup (mapNodes stf) (key endp) = Some n" "distSinceFight n = 0"
    unfolding fights_def by blast
  from bf have "key endp \<in> bosses (mapNodes stf)" by simp
  with n(1) have nbs: "isBoss n" unfolding bosses_def by auto
  from staging_init_resolved[OF si] ok0 ef0 b0
  have inv: "enc_inv (key endp) (set (snd (st0, [key start]))) {} (mapNodes (fst (st0, [key start])))"
    unfolding enc_inv_def by simp
  have rounds: "staging_loop rnd np s = Some (Inr stf)
          \<and> bosses (mapNodes (fst s)) = {key endp}
          \<and> key endp \<in> fights (mapNodes (fst s))"
    if "round_state rnd np k (st0, [key start]) = Some s" for k s
  proof -
    from inv have "enc_inv (key endp) ({} \<union> set (snd (st0, [key start]))) {}
                     (mapNodes (fst (st0, [key start])))" by simp
    from round_state_enc[OF that this] have "bosses (mapNodes (fst s)) = {key endp}"
      "key endp \<in> fights (mapNodes (fst s))" unfolding enc_inv_def by blast+
    with round_state_loop[OF that] lf show ?thesis by simp
  qed
  have relax: "(\<exists>p. fmlookup (mapNodes st) ck = Some p \<and> 0 \<le> distSinceFight p)
            \<and> fights (mapNodes st) \<subseteq> fights (mapNodes st')
            \<and> bosses (mapNodes st) = {key endp} \<and> bosses (mapNodes st') = {key endp}
            \<and> key endp \<in> fights (mapNodes st)"
    if "relaxation rnd np (st0, [key start]) ck c st st'" for ck c st st'
    by (rule relaxation_enc[OF that inv])
  from si ba n nbs bf rounds relax show ?thesis
    by (intro exI[of _ "(st0, [key start])"] exI[of _ stf]) blast
qed

theorem buildAnimationSteps_encounters_fixed_witness:
  "\<exists>init stf st st'.
       staging_init (\<lambda>k. 9 / 10) 5 loop_nodes (0, 2) (3, 1) = Inr init
     \<and> buildAnimationSteps (\<lambda>k. 9 / 10) 5 (0, 2) (3, 1) loop_table = Some (Inr stf)
     \<and> (\<exists>n. fmlookup (mapNodes stf) (key (3, 1)) = Some n \<and> distSinceFight n = 0 \<and> isBoss n)
     \<and> bosses (mapNodes stf) = {key (3, 1)}
     \<and> relaxation (\<lambda>k. 9 / 10) 5 init (0, 2) (1, 1) st st'
     \<and> fights (mapNodes st) \<subseteq> fights (mapNodes st')
     \<and> bosses (mapNodes st') = {key (3, 1)}
     \<and> key (3, 1) \<in> fights (mapNodes st)"
proof -
  from buildAnimationSteps_encounters_fixed[OF loop_nodesFromTransitions, of "\<lambda>k. 9 / 10" 5]
  obtain init stf where
    i: "staging_init (\<lambda>k. 9 / 10) 5 loop_nodes (0, 2) (3, 1) = Inr init"
    and b: "buildAnimationSteps (\<lambda>k. 9 / 10) 5 (0, 2) (3, 1) loop_table = Some (Inr stf)"
    and e: "\<exists>n. fmlookup (mapNodes stf) (key (3, 1)) = Some n \<and> distSinceFight n = 0 \<and> isBoss n"
    and bs: "bosses (mapNodes stf) = {key (3, 1)}"
    and r: "\<forall>currentKey childKey st st'.
            relaxation (\<lambda>k. 9 / 10) 5 init currentKey childKey st st' \<longrightarrow>
              (\<exists>p. fmlookup (mapNodes st) currentKey = Some p \<and> 0 \<le> distSinceFight p)
            \<and> fights (mapNodes st) \<subseteq> fights (mapNodes st')
            \<and> bosses (mapNodes st) = {key (3, 1)} \<and> bosses (mapNodes st') = {key (3, 1)}
            \<and> key (3, 1) \<in> fights (mapNodes st)"
    by auto
  from loop_first_relaxation[OF i] obtain st st' where
    rl: "relaxation (\<lambda>k. 9 / 10) 5 init (0, 2) (1, 1) st st'" by blast
  with r have "fights (mapNodes st) \<subseteq> fights (mapNodes st')"
    "bosses (mapNodes st') = {key (3, 1)}" "key (3, 1) \<in> fights (mapNodes st)" by blast+
  with i b e bs rl show ?thesis by blast
qed

end
